theory Spec2Isabelle
  imports Main "HOL-Library.Char_ord" "HOL-Library.List_Lexorder" "HOL-Library.Multiset"
begin

section \<open>SightShare backend: a model of \<^verbatim>\<open>server.js\<close>\<close>

text \<open>
  The server is an Express application over one SQLite file with two tables, \<^verbatim>\<open>guests\<close> and
  \<^verbatim>\<open>orders\<close>. Every route handler is modelled as a function from the request and the
  store to a response and the new store. What the handlers take from their surroundings is
  an explicit argument: the clock (\<^verbatim>\<open>new Date().toISOString()\<close> and SQLite's
  \<^verbatim>\<open>CURRENT_TIMESTAMP\<close>), whether the storage engine reports an error for a statement,
  and the conversions the SQLite driver applies to values that are not strings.

  Integers are unbounded in the model, with one exception, the largest rowid of SQLite. Not
  modelled are the rounding of integers beyond \<open>2^53\<close> when they become JavaScript numbers,
  the overflow error of \<^verbatim>\<open>SUM\<close> beyond 64 bits, numbers with a fractional part, and
  characters above 0xFF. The health check, the static files and the shutdown hook touch
  neither table and are left out.
\<close>

subsection \<open>JSON values\<close>

text \<open>
  \<^verbatim>\<open>express.json()\<close> hands the handlers the result of \<^verbatim>\<open>JSON.parse\<close>. Numbers are
  modelled as integers (a JavaScript number with a fractional part is outside the model),
  strings as lists of 8-bit characters, objects as association lists in property order.
\<close>


datatype json = JNull | JBool bool | JNum int | JStr string
  | JArr "json list" | JObj "(string \<times> json) list"

text \<open>Decimal rendering of integers, as \<^verbatim>\<open>String(n)\<close> and \<^verbatim>\<open>JSON.stringify(n)\<close> give it.\<close>

definition digit_char :: "nat \<Rightarrow> char" where
  "digit_char d = char_of (48 + d)"

fun show_nat :: "nat \<Rightarrow> string" where
  "show_nat n = (if n < 10 then [digit_char n] else show_nat (n div 10) @ [digit_char (n mod 10)])"

declare show_nat.simps [simp del]

definition show_int :: "int \<Rightarrow> string" where
  "show_int i = (if i < 0 then CHR ''-'' # show_nat (nat (- i)) else show_nat (nat i))"

subsection \<open>\<^verbatim>\<open>JSON.stringify\<close>\<close>

text \<open>
  A string is quoted with the two-character escapes for backspace, tab, line feed, form
  feed, carriage return, the double quote and the backslash, and \<^verbatim>\<open>\u00XX\<close> for the other
  characters below 0x20. Arrays and objects are written without white space.
\<close>

definition hex_char :: "nat \<Rightarrow> char" where
  "hex_char d = (if d < 10 then char_of (48 + d) else char_of (87 + d))"

definition quote_char :: "char \<Rightarrow> string" where
  "quote_char c =
     (if c = CHR 0x08 then [CHR 0x5C, CHR ''b'']
      else if c = CHR 0x09 then [CHR 0x5C, CHR ''t'']
      else if c = CHR 0x0A then [CHR 0x5C, CHR ''n'']
      else if c = CHR 0x0C then [CHR 0x5C, CHR ''f'']
      else if c = CHR 0x0D then [CHR 0x5C, CHR ''r'']
      else if c = CHR 0x22 then [CHR 0x5C, CHR 0x22]
      else if c = CHR 0x5C then [CHR 0x5C, CHR 0x5C]
      else if (of_char c :: nat) < 32
        then [CHR 0x5C, CHR ''u'', CHR ''0'', CHR ''0'',
              hex_char (of_char c div 16), hex_char (of_char c mod 16)]
      else [c])"

definition quote :: "string \<Rightarrow> string" where
  "quote s = CHR 0x22 # concat (map quote_char s) @ [CHR 0x22]"

fun stringify :: "json \<Rightarrow> string"
and stringify_elements :: "json list \<Rightarrow> string"
and stringify_members :: "(string \<times> json) list \<Rightarrow> string" where
  "stringify JNull = ''null''"
| "stringify (JBool b) = (if b then ''true'' else ''false'')"
| "stringify (JNum n) = show_int n"
| "stringify (JStr s) = quote s"
| "stringify (JArr xs) = ''['' @ stringify_elements xs @ '']''"
| "stringify (JObj kvs) = ''{'' @ stringify_members kvs @ ''}''"
| "stringify_elements [] = []"
| "stringify_elements (x # xs) =
     stringify x @ (if xs = [] then [] else '','' @ stringify_elements xs)"
| "stringify_members [] = []"
| "stringify_members ((k, v) # kvs) =
     quote k @ '':'' @ stringify v @ (if kvs = [] then [] else '','' @ stringify_members kvs)"

subsection \<open>\<^verbatim>\<open>JSON.parse\<close>\<close>

text \<open>
  A recursive-descent parser of the JSON grammar. \<^const>\<open>None\<close> stands for a \<^verbatim>\<open>SyntaxError\<close>,
  and also for a text whose value is outside the model: a number with a fraction or an
  exponent or beyond the safe integers, a \<^verbatim>\<open>\u\<close> escape above 0xFF. The recursion into nested
  arrays and objects is bounded by a fuel argument. The fuel \<open>json_parse\<close> supplies is never
  used up: any larger amount gives the same result (lemma \<open>json_parse_fuel\<close> below).
\<close>

definition is_ws :: "char \<Rightarrow> bool" where
  "is_ws c = (c = CHR 0x20 \<or> c = CHR 0x09 \<or> c = CHR 0x0A \<or> c = CHR 0x0D)"

definition skip_ws :: "string \<Rightarrow> string" where
  "skip_ws = dropWhile is_ws"

definition is_digit :: "char \<Rightarrow> bool" where
  "is_digit c = (48 \<le> (of_char c :: nat) \<and> (of_char c :: nat) \<le> 57)"

definition digit_val :: "char \<Rightarrow> nat" where
  "digit_val c = of_char c - 48"

definition nat_of_digits :: "string \<Rightarrow> nat" where
  "nat_of_digits ds = foldl (\<lambda>a c. 10 * a + digit_val c) 0 ds"

definition hex_val :: "char \<Rightarrow> nat option" where
  "hex_val c =
     (let n = (of_char c :: nat) in
      if 48 \<le> n \<and> n \<le> 57 then Some (n - 48)
      else if 97 \<le> n \<and> n \<le> 102 then Some (n - 87)
      else if 65 \<le> n \<and> n \<le> 70 then Some (n - 55)
      else None)"

definition unescape :: "string \<Rightarrow> (char \<times> nat) option" where
  "unescape s = (case s of [] \<Rightarrow> None | e # r \<Rightarrow>
     if e = CHR 0x22 \<or> e = CHR 0x5C \<or> e = CHR ''/'' then Some (e, 1)
     else if e = CHR ''b'' then Some (CHR 0x08, 1)
     else if e = CHR ''f'' then Some (CHR 0x0C, 1)
     else if e = CHR ''n'' then Some (CHR 0x0A, 1)
     else if e = CHR ''r'' then Some (CHR 0x0D, 1)
     else if e = CHR ''t'' then Some (CHR 0x09, 1)
     else if e = CHR ''u'' then
       (case map hex_val (take 4 r) of
          [Some a, Some b, Some c, Some d] \<Rightarrow>
            if a = 0 \<and> b = 0 then Some (char_of (16 * c + d), 5) else None
        | _ \<Rightarrow> None)
     else None)"

fun parse_chars :: "string \<Rightarrow> (string \<times> string) option" where
  "parse_chars [] = None"
| "parse_chars (c # cs) =
     (if c = CHR 0x22 then Some ([], cs)
      else if c = CHR 0x5C then
        (case unescape cs of None \<Rightarrow> None
         | Some (d, k) \<Rightarrow>
             (case parse_chars (drop k cs) of None \<Rightarrow> None
              | Some (s, r) \<Rightarrow> Some (d # s, r)))
      else if (of_char c :: nat) < 32 then None
      else (case parse_chars cs of None \<Rightarrow> None | Some (s, r) \<Rightarrow> Some (c # s, r)))"

definition max_safe_integer :: int where
  "max_safe_integer = 9007199254740991"

definition parse_number :: "string \<Rightarrow> (json \<times> string) option" where
  "parse_number s =
     (let neg = (s \<noteq> [] \<and> hd s = CHR ''-'');
          t = (if neg then tl s else s);
          ds = takeWhile is_digit t;
          r = dropWhile is_digit t;
          n = int (nat_of_digits ds)
      in if ds = [] \<or> (hd ds = CHR ''0'' \<and> length ds > 1) then None
         else if r \<noteq> [] \<and> hd r \<in> set ''.eE'' then None
         else if n > max_safe_integer then None
         else Some (JNum (if neg then - n else n), r))"

fun strip_prefix :: "string \<Rightarrow> string \<Rightarrow> string option" where
  "strip_prefix [] s = Some s"
| "strip_prefix (p # ps) [] = None"
| "strip_prefix (p # ps) (c # cs) = (if p = c then strip_prefix ps cs else None)"

definition parse_scalar :: "string \<Rightarrow> (json \<times> string) option" where
  "parse_scalar s = (case s of [] \<Rightarrow> None | c # r \<Rightarrow>
     if c = CHR 0x22 then
       (case parse_chars r of None \<Rightarrow> None | Some (str, r') \<Rightarrow> Some (JStr str, r'))
     else if c = CHR ''n'' then
       (case strip_prefix ''null'' s of None \<Rightarrow> None | Some r' \<Rightarrow> Some (JNull, r'))
     else if c = CHR ''t'' then
       (case strip_prefix ''true'' s of None \<Rightarrow> None | Some r' \<Rightarrow> Some (JBool True, r'))
     else if c = CHR ''f'' then
       (case strip_prefix ''false'' s of None \<Rightarrow> None | Some r' \<Rightarrow> Some (JBool False, r'))
     else parse_number s)"

text \<open>
  An object keeps its properties in JavaScript's property order: keys that are array
  indices first, in ascending numeric order, then the other keys in order of creation. A
  repeated key overwrites the value and keeps its place.
\<close>

definition array_index :: "string \<Rightarrow> nat option" where
  "array_index k =
     (if k \<noteq> [] \<and> list_all is_digit k \<and> (length k = 1 \<or> hd k \<noteq> CHR ''0'')
         \<and> nat_of_digits k < 4294967295
      then Some (nat_of_digits k) else None)"

fun insert_index :: "nat \<Rightarrow> string \<Rightarrow> json \<Rightarrow> (string \<times> json) list \<Rightarrow> (string \<times> json) list" where
  "insert_index i k v [] = [(k, v)]"
| "insert_index i k v ((k', v') # kvs) =
     (case array_index k' of
        Some j \<Rightarrow> if j < i then (k', v') # insert_index i k v kvs
                  else (k, v) # (k', v') # kvs
      | None \<Rightarrow> (k, v) # (k', v') # kvs)"

definition obj_put :: "string \<Rightarrow> json \<Rightarrow> (string \<times> json) list \<Rightarrow> (string \<times> json) list" where
  "obj_put k v kvs =
     (if k \<in> fst ` set kvs then map (\<lambda>(k', v'). if k' = k then (k', v) else (k', v')) kvs
      else case array_index k of
             Some i \<Rightarrow> insert_index i k v kvs
           | None \<Rightarrow> kvs @ [(k, v)])"

fun parse_value :: "nat \<Rightarrow> string \<Rightarrow> (json \<times> string) option"
and parse_elements :: "nat \<Rightarrow> json list \<Rightarrow> string \<Rightarrow> (json \<times> string) option"
and parse_members :: "nat \<Rightarrow> (string \<times> json) list \<Rightarrow> string \<Rightarrow> (json \<times> string) option" where
  "parse_value 0 s = None"
| "parse_value (Suc n) s =
     (case skip_ws s of [] \<Rightarrow> None
      | c # r \<Rightarrow>
          if c = CHR ''['' then
            (case skip_ws r of [] \<Rightarrow> None
             | d # r' \<Rightarrow> if d = CHR '']'' then Some (JArr [], r') else parse_elements n [] r)
          else if c = CHR ''{'' then
            (case skip_ws r of [] \<Rightarrow> None
             | d # r' \<Rightarrow> if d = CHR ''}'' then Some (JObj [], r') else parse_members n [] r)
          else parse_scalar (c # r))"
| "parse_elements 0 acc s = None"
| "parse_elements (Suc n) acc s =
     (case parse_value n s of None \<Rightarrow> None
      | Some (v, r) \<Rightarrow>
          (case skip_ws r of [] \<Rightarrow> None
           | c # r' \<Rightarrow>
               if c = CHR '','' then parse_elements n (acc @ [v]) r'
               else if c = CHR '']'' then Some (JArr (acc @ [v]), r')
               else None))"
| "parse_members 0 acc s = None"
| "parse_members (Suc n) acc s =
     (case skip_ws s of [] \<Rightarrow> None
      | q # r \<Rightarrow>
          if q \<noteq> CHR 0x22 then None
          else (case parse_chars r of None \<Rightarrow> None
                | Some (k, r1) \<Rightarrow>
                    (case skip_ws r1 of [] \<Rightarrow> None
                     | c # r2 \<Rightarrow>
                         if c \<noteq> CHR '':'' then None
                         else (case parse_value n r2 of None \<Rightarrow> None
                               | Some (v, r3) \<Rightarrow>
                                   (case skip_ws r3 of [] \<Rightarrow> None
                                    | d # r4 \<Rightarrow>
                                        if d = CHR '','' then parse_members n (obj_put k v acc) r4
                                        else if d = CHR ''}'' then Some (JObj (obj_put k v acc), r4)
                                        else None)))))"

definition json_parse :: "string \<Rightarrow> json option" where
  "json_parse s =
     (case parse_value (2 * length s + 2) s of None \<Rightarrow> None
      | Some (v, r) \<Rightarrow> if skip_ws r = [] then Some v else None)"


text \<open>
  The values \<^verbatim>\<open>JSON.parse\<close> can produce (within the model): numbers are safe integers and
  object keys are distinct and in property order.
\<close>

definition key_before :: "string \<Rightarrow> string \<Rightarrow> bool" where
  "key_before a b =
     (a \<noteq> b \<and>
      (case array_index b of None \<Rightarrow> True
       | Some j \<Rightarrow> (case array_index a of None \<Rightarrow> False | Some i \<Rightarrow> i < j)))"

fun js_value :: "json \<Rightarrow> bool"
and js_values :: "json list \<Rightarrow> bool"
and js_members :: "(string \<times> json) list \<Rightarrow> bool" where
  "js_value JNull = True"
| "js_value (JBool b) = True"
| "js_value (JNum n) = (- max_safe_integer \<le> n \<and> n \<le> max_safe_integer)"
| "js_value (JStr s) = True"
| "js_value (JArr xs) = js_values xs"
| "js_value (JObj kvs) = (sorted_wrt key_before (map fst kvs) \<and> js_members kvs)"
| "js_values [] = True"
| "js_values (x # xs) = (js_value x \<and> js_values xs)"
| "js_members [] = True"
| "js_members ((k, v) # kvs) = (js_value v \<and> js_members kvs)"

text \<open>
  Auxiliary notions for the proofs about the parser: fuel that suffices to parse the
  serialisation of a value, the texts that may follow a number, and the characters a
  serialised value may start with.
\<close>

fun need :: "json \<Rightarrow> nat"
and needs :: "json list \<Rightarrow> nat"
and needm :: "(string \<times> json) list \<Rightarrow> nat" where
  "need JNull = 1"
| "need (JBool b) = 1"
| "need (JNum n) = 1"
| "need (JStr s) = 1"
| "need (JArr xs) = Suc (needs xs)"
| "need (JObj kvs) = Suc (needm kvs)"
| "needs [] = 0"
| "needs (x # xs) = Suc (need x + needs xs)"
| "needm [] = 0"
| "needm ((k, v) # kvs) = Suc (need v + needm kvs)"


definition number_end :: "string \<Rightarrow> bool" where
  "number_end r = (r = [] \<or> (\<not> is_digit (hd r) \<and> hd r \<notin> set ''.eE''))"

definition value_start :: "char \<Rightarrow> bool" where
  "value_start c = (\<not> is_ws c \<and> c \<noteq> CHR '']'' \<and> c \<noteq> CHR ''}'')"

subsection \<open>JavaScript operations used by the handlers\<close>

text \<open>
  A field of the request body is a \<open>json option\<close>: \<^const>\<open>None\<close> is \<^verbatim>\<open>undefined\<close>.
  \<open>truthy\<close> is the test \<^verbatim>\<open>!x\<close> negated, \<open>js_or\<close> is \<^verbatim>\<open>a || b\<close>, \<open>js_length\<close> reads the
  \<^verbatim>\<open>length\<close> property of a truthy value, and \<open>join\<close> is \<^verbatim>\<open>Array.prototype.join\<close>.
\<close>

fun truthy_value :: "json \<Rightarrow> bool" where
  "truthy_value JNull = False"
| "truthy_value (JBool b) = b"
| "truthy_value (JNum n) = (n \<noteq> 0)"
| "truthy_value (JStr s) = (s \<noteq> [])"
| "truthy_value (JArr xs) = True"
| "truthy_value (JObj kvs) = True"

definition truthy :: "json option \<Rightarrow> bool" where
  "truthy v = (case v of None \<Rightarrow> False | Some x \<Rightarrow> truthy_value x)"

definition js_or :: "json option \<Rightarrow> json \<Rightarrow> json" where
  "js_or a b = (case a of None \<Rightarrow> b | Some x \<Rightarrow> if truthy_value x then x else b)"

fun js_length :: "json \<Rightarrow> json option" where
  "js_length (JArr xs) = Some (JNum (int (length xs)))"
| "js_length (JStr s) = Some (JNum (int (length s)))"
| "js_length (JObj kvs) = map_of kvs ''length''"
| "js_length (JBool b) = None"
| "js_length (JNum n) = None"
| "js_length JNull = None"

fun join :: "string \<Rightarrow> string list \<Rightarrow> string" where
  "join sep [] = []"
| "join sep [x] = x"
| "join sep (x # y # ys) = x @ sep @ join sep (y # ys)"

subsection \<open>The SQLite store\<close>

text \<open>
  Both tables declare \<^verbatim>\<open>id INTEGER PRIMARY KEY AUTOINCREMENT\<close>, every other column of an
  insert \<^verbatim>\<open>NOT NULL\<close>, and \<^verbatim>\<open>created_at DATETIME DEFAULT CURRENT_TIMESTAMP\<close>. A table is
  the list of its rows in rowid order together with its entry in \<^verbatim>\<open>sqlite_sequence\<close>.

  The driver binds a JavaScript string as text, a number or a boolean as a number,
  \<^verbatim>\<open>null\<close> and \<^verbatim>\<open>undefined\<close> as \<^verbatim>\<open>NULL\<close>, and an array or object as the text of its
  \<^verbatim>\<open>toString()\<close>; the column's affinity then converts the bound value. For strings the
  result is the string itself. The results for the other values belong to the driver and
  to SQLite, not to this program, and are parameters of the model:
  \<open>text_of_value\<close> is the text a \<^verbatim>\<open>TEXT\<close> column holds for a value that is neither a string
  nor \<^verbatim>\<open>null\<close>, \<open>integer_of_text\<close> is the integer that numeric affinity makes of a text (if
  any), \<open>number_of_text\<close> the number \<^verbatim>\<open>SUM\<close> reads from a text.
\<close>

datatype sqlval = SInt int | SText string

record coercions =
  text_of_value :: "json \<Rightarrow> string"
  integer_of_text :: "string \<Rightarrow> int option"
  number_of_text :: "string \<Rightarrow> int"

text \<open>
  What one request takes from its surroundings: the two readings of the clock, and for each
  SQL statement the handler issues (numbered from 0) whether the engine reports an error.
\<close>

record env =
  iso_now :: string
  sql_now :: string
  faults :: "bool list"

definition fails :: "env \<Rightarrow> nat \<Rightarrow> bool" where
  "fails e k = (k < length (faults e) \<and> faults e ! k)"

record guest_row =
  g_id :: int
  g_name :: string
  g_email :: string
  g_gallery_name :: string
  g_gallery_id :: string
  g_visit_date :: string
  g_created_at :: string

record order_row =
  o_id :: int
  o_name :: string
  o_email :: string
  o_gallery_name :: string
  o_gallery_id :: string
  o_photo_count :: sqlval
  o_photos :: string
  o_submitted_at :: string
  o_created_at :: string

record store =
  guests :: "guest_row list"
  guests_seq :: int
  orders :: "order_row list"
  orders_seq :: int

definition empty_store :: store where
  "empty_store = \<lparr>guests = [], guests_seq = 0, orders = [], orders_seq = 0\<rparr>"

text \<open>
  \<^verbatim>\<open>CREATE TABLE IF NOT EXISTS\<close>: a database file that has the tables is left as it is, a
  missing one starts with empty tables and no sequence entries.
\<close>

definition initDatabase :: "store option \<Rightarrow> store" where
  "initDatabase file = (case file of None \<Rightarrow> empty_store | Some st \<Rightarrow> st)"

datatype db_error = SQLITE_IOERR | SQLITE_CONSTRAINT | SQLITE_FULL

definition bind_text :: "coercions \<Rightarrow> json \<Rightarrow> string option" where
  "bind_text cz v =
     (case v of JNull \<Rightarrow> None | JStr s \<Rightarrow> Some s | _ \<Rightarrow> Some (text_of_value cz v))"

definition bind_param :: "coercions \<Rightarrow> json option \<Rightarrow> string option" where
  "bind_param cz v = (case v of None \<Rightarrow> None | Some x \<Rightarrow> bind_text cz x)"

definition integer_affinity :: "coercions \<Rightarrow> string \<Rightarrow> sqlval" where
  "integer_affinity cz t = (case integer_of_text cz t of Some n \<Rightarrow> SInt n | None \<Rightarrow> SText t)"

definition bind_integer :: "coercions \<Rightarrow> json option \<Rightarrow> sqlval option" where
  "bind_integer cz v =
     (case v of None \<Rightarrow> None
      | Some JNull \<Rightarrow> None
      | Some (JBool b) \<Rightarrow> Some (SInt (if b then 1 else 0))
      | Some (JNum n) \<Rightarrow> Some (SInt n)
      | Some (JStr s) \<Rightarrow> Some (integer_affinity cz s)
      | Some x \<Rightarrow> Some (integer_affinity cz (text_of_value cz x)))"

text \<open>
  \<^verbatim>\<open>AUTOINCREMENT\<close>: the new rowid is one more than the largest rowid the table has ever
  held; when that is the largest 64-bit integer the insert fails with \<^verbatim>\<open>SQLITE_FULL\<close>.
\<close>

definition max_rowid :: int where
  "max_rowid = 9223372036854775807"

definition next_rowid :: "int \<Rightarrow> int list \<Rightarrow> int option" where
  "next_rowid seq ids =
     (let m = fold max ids seq in if max_rowid \<le> m then None else Some (m + 1))"

definition insert_guest ::
  "env \<Rightarrow> string option \<Rightarrow> string option \<Rightarrow> string option \<Rightarrow> string option \<Rightarrow> string option
     \<Rightarrow> store \<Rightarrow> db_error + (int \<times> store)" where
  "insert_guest e name email gallery_name gallery_id visit_date st =
     (if fails e 0 then Inl SQLITE_IOERR
      else case (name, email, gallery_name, gallery_id, visit_date) of
        (Some n, Some m, Some gn, Some gi, Some vd) \<Rightarrow>
          (case next_rowid (guests_seq st) (map g_id (guests st)) of
             None \<Rightarrow> Inl SQLITE_FULL
           | Some i \<Rightarrow>
               Inr (i, st\<lparr>guests := guests st @
                         [\<lparr>g_id = i, g_name = n, g_email = m, g_gallery_name = gn,
                           g_gallery_id = gi, g_visit_date = vd, g_created_at = sql_now e\<rparr>],
                       guests_seq := i\<rparr>))
      | _ \<Rightarrow> Inl SQLITE_CONSTRAINT)"

definition insert_order ::
  "env \<Rightarrow> string option \<Rightarrow> string option \<Rightarrow> string option \<Rightarrow> string option \<Rightarrow> sqlval option
     \<Rightarrow> string option \<Rightarrow> string option \<Rightarrow> store \<Rightarrow> db_error + (int \<times> store)" where
  "insert_order e name email gallery_name gallery_id photo_count photos submitted_at st =
     (if fails e 0 then Inl SQLITE_IOERR
      else case (name, email, gallery_name, gallery_id, photo_count, photos, submitted_at) of
        (Some n, Some m, Some gn, Some gi, Some pc, Some ph, Some sa) \<Rightarrow>
          (case next_rowid (orders_seq st) (map o_id (orders st)) of
             None \<Rightarrow> Inl SQLITE_FULL
           | Some i \<Rightarrow>
               Inr (i, st\<lparr>orders := orders st @
                         [\<lparr>o_id = i, o_name = n, o_email = m, o_gallery_name = gn,
                           o_gallery_id = gi, o_photo_count = pc, o_photos = ph,
                           o_submitted_at = sa, o_created_at = sql_now e\<rparr>],
                       orders_seq := i\<rparr>))
      | _ \<Rightarrow> Inl SQLITE_CONSTRAINT)"

text \<open>
  \<^verbatim>\<open>ORDER BY created_at DESC\<close> on the timestamp texts, compared bytewise. SQL leaves the
  order of rows with equal keys open; here they stay in rowid order.
\<close>

fun insert_desc :: "('a \<Rightarrow> string) \<Rightarrow> 'a \<Rightarrow> 'a list \<Rightarrow> 'a list" where
  "insert_desc key x [] = [x]"
| "insert_desc key x (y # ys) =
     (if key y \<le> key x then x # y # ys else y # insert_desc key x ys)"

definition order_by_desc :: "('a \<Rightarrow> string) \<Rightarrow> 'a list \<Rightarrow> 'a list" where
  "order_by_desc key xs = foldr (insert_desc key) xs []"

definition select_guests :: "env \<Rightarrow> store \<Rightarrow> db_error + guest_row list" where
  "select_guests e st =
     (if fails e 0 then Inl SQLITE_IOERR else Inr (order_by_desc g_created_at (guests st)))"

definition select_orders :: "env \<Rightarrow> store \<Rightarrow> db_error + order_row list" where
  "select_orders e st =
     (if fails e 0 then Inl SQLITE_IOERR else Inr (order_by_desc o_created_at (orders st)))"

definition select_orders_where_gallery :: "env \<Rightarrow> string \<Rightarrow> store \<Rightarrow> db_error + order_row list" where
  "select_orders_where_gallery e galleryId st =
     (if fails e 0 then Inl SQLITE_IOERR
      else Inr (order_by_desc o_created_at (filter (\<lambda>r. o_gallery_id r = galleryId) (orders st))))"

text \<open>
  \<^verbatim>\<open>WHERE id = ?\<close> with the route parameter, a text: the comparison applies numeric
  affinity to the text.
\<close>

definition id_equals :: "coercions \<Rightarrow> string \<Rightarrow> int \<Rightarrow> bool" where
  "id_equals cz param i = (integer_of_text cz param = Some i)"

definition delete_guest_where_id :: "coercions \<Rightarrow> env \<Rightarrow> string \<Rightarrow> store \<Rightarrow> db_error + (nat \<times> store)" where
  "delete_guest_where_id cz e param st =
     (if fails e 0 then Inl SQLITE_IOERR
      else Inr (length (filter (\<lambda>r. id_equals cz param (g_id r)) (guests st)),
                st\<lparr>guests := filter (\<lambda>r. \<not> id_equals cz param (g_id r)) (guests st)\<rparr>))"

definition delete_order_where_id :: "coercions \<Rightarrow> env \<Rightarrow> string \<Rightarrow> store \<Rightarrow> db_error + (nat \<times> store)" where
  "delete_order_where_id cz e param st =
     (if fails e 0 then Inl SQLITE_IOERR
      else Inr (length (filter (\<lambda>r. id_equals cz param (o_id r)) (orders st)),
                st\<lparr>orders := filter (\<lambda>r. \<not> id_equals cz param (o_id r)) (orders st)\<rparr>))"

definition delete_from_guests :: "env \<Rightarrow> store \<Rightarrow> db_error + (nat \<times> store)" where
  "delete_from_guests e st =
     (if fails e 0 then Inl SQLITE_IOERR else Inr (length (guests st), st\<lparr>guests := []\<rparr>))"

definition delete_from_orders :: "env \<Rightarrow> store \<Rightarrow> db_error + (nat \<times> store)" where
  "delete_from_orders e st =
     (if fails e 0 then Inl SQLITE_IOERR else Inr (length (orders st), st\<lparr>orders := []\<rparr>))"

text \<open>
  \<^verbatim>\<open>SUM(photo_count)\<close> is \<^verbatim>\<open>NULL\<close> over an empty table. A \<^verbatim>\<open>photo_count\<close> is an integer
  whenever \<^verbatim>\<open>photos\<close> was an array or a string; it is a text only when \<^verbatim>\<open>photos\<close> was an object
  whose own \<^verbatim>\<open>length\<close> property was bound as a text that is not an integer literal.
\<close>

definition sql_number :: "coercions \<Rightarrow> sqlval \<Rightarrow> int" where
  "sql_number cz v = (case v of SInt n \<Rightarrow> n | SText t \<Rightarrow> number_of_text cz t)"

definition sum_photo_count :: "coercions \<Rightarrow> order_row list \<Rightarrow> int option" where
  "sum_photo_count cz rows =
     (if rows = [] then None else Some (sum_list (map (\<lambda>r. sql_number cz (o_photo_count r)) rows)))"

subsection \<open>Responses\<close>

text \<open>
  A response is the status code, the headers the handler sets itself, and the body:
  \<^verbatim>\<open>res.json(x)\<close> is \<open>res_json 200 x\<close> and \<^verbatim>\<open>res.status(c).json(x)\<close> is \<open>res_json c x\<close>.
\<close>

datatype content = Json json | Text string

record response =
  status :: nat
  headers :: "(string \<times> string) list"
  content :: content

definition res_json :: "nat \<Rightarrow> json \<Rightarrow> response" where
  "res_json code j = \<lparr>status = code, headers = [], content = Json j\<rparr>"

definition missing_fields :: response where
  "missing_fields = res_json 400 (JObj [(''error'', JStr ''Missing required fields'')])"

definition database_error :: response where
  "database_error = res_json 500 (JObj [(''error'', JStr ''Database error'')])"

subsection \<open>The route handlers\<close>

definition post_api_guests :: "coercions \<Rightarrow> env \<Rightarrow> (string \<times> json) list \<Rightarrow> store \<Rightarrow> response \<times> store" where
  "post_api_guests cz e body st =
     (let name = map_of body ''name''; email = map_of body ''email'';
          galleryName = map_of body ''galleryName''; galleryId = map_of body ''galleryId'';
          visitDate = map_of body ''visitDate''
      in if \<not> truthy name \<or> \<not> truthy email \<or> \<not> truthy galleryName \<or> \<not> truthy galleryId
         then (missing_fields, st)
         else case insert_guest e (bind_param cz name) (bind_param cz email)
                     (bind_param cz galleryName) (bind_param cz galleryId)
                     (bind_text cz (js_or visitDate (JStr (iso_now e)))) st of
                Inl err \<Rightarrow> (database_error, st)
              | Inr (lastID, st') \<Rightarrow>
                  (res_json 200 (JObj [(''success'', JBool True), (''id'', JNum lastID),
                     (''message'', JStr ''Guest info saved successfully'')]), st'))"

definition post_api_orders :: "coercions \<Rightarrow> env \<Rightarrow> (string \<times> json) list \<Rightarrow> store \<Rightarrow> response \<times> store" where
  "post_api_orders cz e body st =
     (let name = map_of body ''name''; email = map_of body ''email'';
          galleryName = map_of body ''galleryName''; galleryId = map_of body ''galleryId'';
          photos = map_of body ''photos''; submittedAt = map_of body ''submittedAt''
      in if \<not> truthy name \<or> \<not> truthy email \<or> \<not> truthy galleryName \<or> \<not> truthy galleryId
            \<or> \<not> truthy photos
         then (missing_fields, st)
         else case photos of
           None \<Rightarrow> (missing_fields, st)
         | Some p \<Rightarrow>
             (let photoCount = js_length p; photosJson = stringify p
              in case insert_order e (bind_param cz name) (bind_param cz email)
                        (bind_param cz galleryName) (bind_param cz galleryId)
                        (bind_integer cz photoCount) (Some photosJson)
                        (bind_text cz (js_or submittedAt (JStr (iso_now e)))) st of
                   Inl err \<Rightarrow> (database_error, st)
                 | Inr (lastID, st') \<Rightarrow>
                     (res_json 200 (JObj [(''success'', JBool True), (''id'', JNum lastID),
                        (''message'', JStr ''Order submitted successfully'')]), st')))"

definition guest_json :: "guest_row \<Rightarrow> json" where
  "guest_json r = JObj [(''id'', JNum (g_id r)), (''name'', JStr (g_name r)),
     (''email'', JStr (g_email r)), (''gallery_name'', JStr (g_gallery_name r)),
     (''gallery_id'', JStr (g_gallery_id r)), (''visit_date'', JStr (g_visit_date r)),
     (''created_at'', JStr (g_created_at r))]"

definition sqlval_json :: "sqlval \<Rightarrow> json" where
  "sqlval_json v = (case v of SInt n \<Rightarrow> JNum n | SText t \<Rightarrow> JStr t)"

text \<open>
  \<^verbatim>\<open>{...order, photos: JSON.parse(order.photos)}\<close>. When \<^verbatim>\<open>JSON.parse\<close> throws inside the
  query callback no response is sent: the result is \<^const>\<open>None\<close>.
\<close>

definition order_obj :: "order_row \<Rightarrow> json \<Rightarrow> json" where
  "order_obj r photos =
     JObj [(''id'', JNum (o_id r)), (''name'', JStr (o_name r)),
       (''email'', JStr (o_email r)), (''gallery_name'', JStr (o_gallery_name r)),
       (''gallery_id'', JStr (o_gallery_id r)), (''photo_count'', sqlval_json (o_photo_count r)),
       (''photos'', photos), (''submitted_at'', JStr (o_submitted_at r)),
       (''created_at'', JStr (o_created_at r))]"

definition order_json :: "order_row \<Rightarrow> json option" where
  "order_json r = map_option (order_obj r) (json_parse (o_photos r))"

definition get_api_guests :: "env \<Rightarrow> store \<Rightarrow> response" where
  "get_api_guests e st =
     (case select_guests e st of
        Inl err \<Rightarrow> database_error
      | Inr rows \<Rightarrow>
          res_json 200 (JObj [(''success'', JBool True), (''guests'', JArr (map guest_json rows))]))"

definition orders_response :: "order_row list \<Rightarrow> response option" where
  "orders_response rows =
     (case those (map order_json rows) of
        None \<Rightarrow> None
      | Some os \<Rightarrow> Some (res_json 200 (JObj [(''success'', JBool True), (''orders'', JArr os)])))"

definition get_api_orders :: "env \<Rightarrow> store \<Rightarrow> response option" where
  "get_api_orders e st =
     (case select_orders e st of
        Inl err \<Rightarrow> Some database_error
      | Inr rows \<Rightarrow> orders_response rows)"

definition get_api_orders_by_gallery :: "env \<Rightarrow> string \<Rightarrow> store \<Rightarrow> response option" where
  "get_api_orders_by_gallery e galleryId st =
     (case select_orders_where_gallery e galleryId st of
        Inl err \<Rightarrow> Some database_error
      | Inr rows \<Rightarrow> orders_response rows)"

definition delete_api_guest :: "coercions \<Rightarrow> env \<Rightarrow> string \<Rightarrow> store \<Rightarrow> response \<times> store" where
  "delete_api_guest cz e ident st =
     (case delete_guest_where_id cz e ident st of
        Inl err \<Rightarrow> (database_error, st)
      | Inr (changes, st') \<Rightarrow>
          (res_json 200 (JObj [(''success'', JBool True), (''message'', JStr ''Guest deleted'')]), st'))"

definition delete_api_order :: "coercions \<Rightarrow> env \<Rightarrow> string \<Rightarrow> store \<Rightarrow> response \<times> store" where
  "delete_api_order cz e ident st =
     (case delete_order_where_id cz e ident st of
        Inl err \<Rightarrow> (database_error, st)
      | Inr (changes, st') \<Rightarrow>
          (res_json 200 (JObj [(''success'', JBool True), (''message'', JStr ''Order deleted'')]), st'))"

definition delete_api_guests :: "env \<Rightarrow> store \<Rightarrow> response \<times> store" where
  "delete_api_guests e st =
     (case delete_from_guests e st of
        Inl err \<Rightarrow> (database_error, st)
      | Inr (changes, st') \<Rightarrow>
          (res_json 200 (JObj [(''success'', JBool True), (''message'', JStr ''All guests cleared''),
             (''deleted'', JNum (int changes))]), st'))"

definition delete_api_orders :: "env \<Rightarrow> store \<Rightarrow> response \<times> store" where
  "delete_api_orders e st =
     (case delete_from_orders e st of
        Inl err \<Rightarrow> (database_error, st)
      | Inr (changes, st') \<Rightarrow>
          (res_json 200 (JObj [(''success'', JBool True), (''message'', JStr ''All orders cleared''),
             (''deleted'', JNum (int changes))]), st'))"

definition guest_csv_line :: "guest_row \<Rightarrow> string" where
  "guest_csv_line r =
     show_int (g_id r) @ '',\"'' @ g_name r @ ''\",\"'' @ g_email r @ ''\",\"'' @ g_gallery_name r
       @ ''\",\"'' @ g_gallery_id r @ ''\",\"'' @ g_visit_date r @ ''\",\"'' @ g_created_at r @ ''\"''"

definition sqlval_text :: "sqlval \<Rightarrow> string" where
  "sqlval_text v = (case v of SInt n \<Rightarrow> show_int n | SText t \<Rightarrow> t)"

definition order_csv_line :: "order_row \<Rightarrow> string" where
  "order_csv_line r =
     show_int (o_id r) @ '',\"'' @ o_name r @ ''\",\"'' @ o_email r @ ''\",\"'' @ o_gallery_name r
       @ ''\",\"'' @ o_gallery_id r @ ''\",'' @ sqlval_text (o_photo_count r) @ '',\"''
       @ o_submitted_at r @ ''\",\"'' @ o_created_at r @ ''\"''"

definition res_csv :: "string \<Rightarrow> string \<Rightarrow> response" where
  "res_csv filename csv =
     \<lparr>status = 200,
      headers = [(''Content-Type'', ''text/csv''),
                 (''Content-Disposition'', ''attachment; filename='' @ filename)],
      content = Text csv\<rparr>"

definition export_guests :: "env \<Rightarrow> store \<Rightarrow> response" where
  "export_guests e st =
     (case select_guests e st of
        Inl err \<Rightarrow> database_error
      | Inr rows \<Rightarrow>
          res_csv ''guests.csv''
            (join [CHR 0x0A]
               (''ID,Name,Email,Gallery Name,Gallery ID,Visit Date,Created At''
                  # map guest_csv_line rows)))"

definition export_orders :: "env \<Rightarrow> store \<Rightarrow> response" where
  "export_orders e st =
     (case select_orders e st of
        Inl err \<Rightarrow> database_error
      | Inr rows \<Rightarrow>
          res_csv ''orders.csv''
            (join [CHR 0x0A]
               (''ID,Name,Email,Gallery Name,Gallery ID,Photo Count,Submitted At,Created At''
                  # map order_csv_line rows)))"

definition get_api_stats :: "coercions \<Rightarrow> env \<Rightarrow> store \<Rightarrow> response" where
  "get_api_stats cz e st =
     (if fails e 0 then database_error
      else let totalGuests = JNum (int (length (guests st)))
        in if fails e 1 then database_error
        else let totalOrders = JNum (int (length (orders st)))
          in if fails e 2 then database_error
          else let totalPhotosOrdered =
                     js_or (map_option JNum (sum_photo_count cz (orders st))) (JNum 0)
            in res_json 200 (JObj [(''success'', JBool True),
                 (''stats'', JObj [(''totalGuests'', totalGuests), (''totalOrders'', totalOrders),
                    (''totalPhotosOrdered'', totalPhotosOrdered)])]))"

subsection \<open>Requests and runs\<close>

datatype request =
    PostGuest "(string \<times> json) list"
  | PostOrder "(string \<times> json) list"
  | GetGuests
  | GetOrders
  | GetOrdersByGallery string
  | DeleteGuest string
  | DeleteOrder string
  | DeleteGuests
  | DeleteOrders
  | ExportGuests
  | ExportOrders
  | GetStats

fun handle :: "coercions \<Rightarrow> env \<Rightarrow> request \<Rightarrow> store \<Rightarrow> response option \<times> store" where
  "handle cz e (PostGuest body) st = (let (r, st') = post_api_guests cz e body st in (Some r, st'))"
| "handle cz e (PostOrder body) st = (let (r, st') = post_api_orders cz e body st in (Some r, st'))"
| "handle cz e GetGuests st = (Some (get_api_guests e st), st)"
| "handle cz e GetOrders st = (get_api_orders e st, st)"
| "handle cz e (GetOrdersByGallery g) st = (get_api_orders_by_gallery e g st, st)"
| "handle cz e (DeleteGuest i) st = (let (r, st') = delete_api_guest cz e i st in (Some r, st'))"
| "handle cz e (DeleteOrder i) st = (let (r, st') = delete_api_order cz e i st in (Some r, st'))"
| "handle cz e DeleteGuests st = (let (r, st') = delete_api_guests e st in (Some r, st'))"
| "handle cz e DeleteOrders st = (let (r, st') = delete_api_orders e st in (Some r, st'))"
| "handle cz e ExportGuests st = (Some (export_guests e st), st)"
| "handle cz e ExportOrders st = (Some (export_orders e st), st)"
| "handle cz e GetStats st = (Some (get_api_stats cz e st), st)"

fun run :: "coercions \<Rightarrow> store \<Rightarrow> (env \<times> request) list \<Rightarrow> store" where
  "run cz st [] = st"
| "run cz st ((e, r) # rest) = run cz (snd (handle cz e r st)) rest"



subsection \<open>Reading responses and stores\<close>

definition field :: "string \<Rightarrow> json \<Rightarrow> json option" where
  "field k v = (case v of JObj kvs \<Rightarrow> map_of kvs k | _ \<Rightarrow> None)"

definition response_field :: "string \<Rightarrow> response \<Rightarrow> json option" where
  "response_field k r = (case content r of Json v \<Rightarrow> field k v | Text t \<Rightarrow> None)"



definition photos_present :: "order_row \<Rightarrow> bool" where
  "photos_present r =
     (case json_parse (o_photos r) of None \<Rightarrow> False | Some v \<Rightarrow> truthy_value v)"

definition store_inv :: "store \<Rightarrow> bool" where
  "store_inv st =
     (list_all (\<lambda>r. g_id r \<le> guests_seq st) (guests st) \<and>
      list_all (\<lambda>r. o_id r \<le> orders_seq st \<and> photos_present r) (orders st))"

fun wf_request :: "request \<Rightarrow> bool" where
  "wf_request (PostGuest body) = js_value (JObj body)"
| "wf_request (PostOrder body) = js_value (JObj body)"
| "wf_request r = True"

definition newest_first :: "('a \<Rightarrow> string) \<Rightarrow> 'a list \<Rightarrow> bool" where
  "newest_first key rows = sorted_wrt (\<lambda>a b. key b \<le> key a) rows"

definition wrap :: "string \<Rightarrow> string" where
  "wrap s = CHR 0x22 # s @ [CHR 0x22]"

subsection \<open>A concrete driver instance\<close>

text \<open>
  One instance of the driver's conversions, for evaluating the handlers on concrete
  requests: booleans as \<^verbatim>\<open>1\<close> and \<^verbatim>\<open>0\<close>, other values by \<^verbatim>\<open>toString()\<close>, and only
  decimal integer literals read as numbers.
\<close>

definition decimal_of_text :: "string \<Rightarrow> int option" where
  "decimal_of_text t =
     (let neg = (t \<noteq> [] \<and> hd t = CHR ''-''); ds = (if neg then tl t else t)
      in if ds \<noteq> [] \<and> list_all is_digit ds
         then Some (if neg then - int (nat_of_digits ds) else int (nat_of_digits ds))
         else None)"

fun to_string :: "json \<Rightarrow> string"
and to_string_elements :: "json list \<Rightarrow> string" where
  "to_string JNull = ''null''"
| "to_string (JBool b) = (if b then ''true'' else ''false'')"
| "to_string (JNum n) = show_int n"
| "to_string (JStr s) = s"
| "to_string (JArr xs) = to_string_elements xs"
| "to_string (JObj kvs) = ''[object Object]''"
| "to_string_elements [] = []"
| "to_string_elements (x # xs) =
     (if x = JNull then [] else to_string x) @ (if xs = [] then [] else '','' @ to_string_elements xs)"

definition plain_coercions :: coercions where
  "plain_coercions =
     \<lparr>text_of_value = (\<lambda>v. case v of JBool b \<Rightarrow> (if b then ''1'' else ''0'') | _ \<Rightarrow> to_string v),
      integer_of_text = decimal_of_text,
      number_of_text = (\<lambda>t. case decimal_of_text t of Some n \<Rightarrow> n | None \<Rightarrow> 0)\<rparr>"


text \<open>Concrete requests, clocks and stores on which the handlers are evaluated below.\<close>

definition quiet :: env where
  "quiet = \<lparr>iso_now = ''2024-05-01T10:00:00.000Z'', sql_now = ''2024-05-01 10:00:00'', faults = []\<rparr>"

definition later :: env where
  "later = \<lparr>iso_now = ''2024-05-01T10:00:07.000Z'', sql_now = ''2024-05-01 10:00:07'', faults = []\<rparr>"

definition ann :: "(string \<times> json) list" where
  "ann = [(''name'', JStr ''Ann''), (''email'', JStr ''a@x.com''),
          (''galleryName'', JStr ''Spring''), (''galleryId'', JStr ''g1'')]"

definition guest1 :: guest_row where
  "guest1 = \<lparr>g_id = 1, g_name = ''Ann'', g_email = ''a@x.com'', g_gallery_name = ''Spring'',
     g_gallery_id = ''g1'', g_visit_date = ''2024-05-01T10:00:00.000Z'',
     g_created_at = ''2024-05-01 10:00:00''\<rparr>"

definition guest2 :: guest_row where
  "guest2 = \<lparr>g_id = 2, g_name = ''Bob \"B\" Lee'', g_email = ''b@x.com'', g_gallery_name = ''Spring'',
     g_gallery_id = ''g1'', g_visit_date = ''2024-05-01T10:00:07.000Z'',
     g_created_at = ''2024-05-01 10:00:07''\<rparr>"

definition order1 :: order_row where
  "order1 = \<lparr>o_id = 1, o_name = ''Ann'', o_email = ''a@x.com'', o_gallery_name = ''Spring'',
     o_gallery_id = ''g1'', o_photo_count = SInt 2, o_photos = ''[\"p1\",\"p2\"]'',
     o_submitted_at = ''2024-05-01T10:00:00.000Z'', o_created_at = ''2024-05-01 10:00:00''\<rparr>"

definition sample_store :: store where
  "sample_store = \<lparr>guests = [guest1, guest2], guests_seq = 2, orders = [order1], orders_seq = 1\<rparr>"




definition sample_photos :: "json list" where
  "sample_photos = [JStr ''p1'',
     JObj [(''7'', JNull), (''file'', JStr ''a \"b\".jpg''), (''tags'', JArr [JBool True, JNum (- 12)])]]"

definition no_photos :: "(string \<times> json) list" where
  "no_photos = ann @ [(''photos'', JArr [])]"

section \<open>Serialisation and parsing\<close>

subsection \<open>Numbers\<close>

lemma of_char_digit_char: "d < 10 \<Longrightarrow> (of_char (digit_char d) :: nat) = 48 + d"
  by (simp add: digit_char_def)

lemma is_digit_digit_char: "d < 10 \<Longrightarrow> is_digit (digit_char d)"
  by (simp add: is_digit_def of_char_digit_char)

lemma digit_val_digit_char: "d < 10 \<Longrightarrow> digit_val (digit_char d) = d"
  by (simp add: digit_val_def of_char_digit_char)

lemma show_nat_digits: "list_all is_digit (show_nat n)"
  by (induction n rule: show_nat.induct) (subst show_nat.simps, simp add: is_digit_digit_char)

lemma show_nat_nonempty: "show_nat n \<noteq> []"
  by (subst show_nat.simps) simp

lemma nat_of_digits_snoc: "nat_of_digits (ds @ [c]) = 10 * nat_of_digits ds + digit_val c"
  by (simp add: nat_of_digits_def)

lemma nat_of_digits_show_nat: "nat_of_digits (show_nat n) = n"
proof (induction n rule: show_nat.induct)
  case (1 n)
  show ?case
  proof (cases "n < 10")
    case True
    then show ?thesis
      by (subst show_nat.simps) (simp add: nat_of_digits_def digit_val_digit_char)
  next
    case False
    with 1 show ?thesis
      by (subst show_nat.simps) (simp add: nat_of_digits_snoc digit_val_digit_char)
  qed
qed

lemma digit_char_eq_0: "d < 10 \<Longrightarrow> digit_char d = CHR ''0'' \<Longrightarrow> d = 0"
  using of_char_digit_char [of d] by (auto dest: arg_cong [where f = "of_char :: char \<Rightarrow> nat"])

lemma hd_show_nat: "0 < n \<Longrightarrow> hd (show_nat n) \<noteq> CHR ''0''"
proof (induction n rule: show_nat.induct)
  case (1 n)
  show ?case
  proof (cases "n < 10")
    case True
    with 1 show ?thesis
      by (subst show_nat.simps) (auto dest: digit_char_eq_0)
  next
    case False
    then have "0 < n div 10" by simp
    with 1 False have "hd (show_nat (n div 10)) \<noteq> CHR ''0''" by simp
    with False show ?thesis
      by (subst show_nat.simps) (simp add: show_nat_nonempty)
  qed
qed

lemma length_show_nat: "n < 10 \<longleftrightarrow> length (show_nat n) = 1"
  by (subst show_nat.simps) (simp add: show_nat_nonempty)

lemma takeWhile_digits:
  "list_all is_digit ds \<Longrightarrow> r = [] \<or> \<not> is_digit (hd r) \<Longrightarrow> takeWhile is_digit (ds @ r) = ds"
  by (cases r) (auto simp: list_all_iff takeWhile_append)

lemma dropWhile_digits:
  "list_all is_digit ds \<Longrightarrow> r = [] \<or> \<not> is_digit (hd r) \<Longrightarrow> dropWhile is_digit (ds @ r) = r"
  by (cases r) (auto simp: list_all_iff dropWhile_append)

lemma parse_number_show_nat:
  assumes "int n \<le> max_safe_integer" "number_end r"
  shows "parse_number (show_nat n @ r) = Some (JNum (int n), r)"
proof -
  have d: "list_all is_digit (show_nat n)" by (rule show_nat_digits)
  have ne: "show_nat n \<noteq> []" by (rule show_nat_nonempty)
  have e: "r = [] \<or> \<not> is_digit (hd r)" using assms(2) by (auto simp: number_end_def)
  have h: "hd (show_nat n @ r) \<noteq> CHR ''-''"
    using d ne by (cases "show_nat n") (auto simp: is_digit_def)
  have z: "\<not> (hd (show_nat n) = CHR ''0'' \<and> length (show_nat n) > 1)"
    using hd_show_nat [of n] length_show_nat [of n] by (cases "n = 0") auto
  show ?thesis
    using assms ne h z
    by (auto simp: parse_number_def Let_def takeWhile_digits [OF d e] dropWhile_digits [OF d e]
        nat_of_digits_show_nat number_end_def)
qed

lemma parse_number_show_int:
  assumes "- max_safe_integer \<le> i" "i \<le> max_safe_integer" "number_end r"
  shows "parse_number (show_int i @ r) = Some (JNum i, r)"
proof (cases "i < 0")
  case False
  then show ?thesis
    using parse_number_show_nat [of "nat i" r] assms by (simp add: show_int_def)
next
  case True
  have d: "list_all is_digit (show_nat (nat (- i)))" by (rule show_nat_digits)
  have ne: "show_nat (nat (- i)) \<noteq> []" by (rule show_nat_nonempty)
  have e: "r = [] \<or> \<not> is_digit (hd r)" using assms(3) by (auto simp: number_end_def)
  have z: "\<not> (hd (show_nat (nat (- i))) = CHR ''0'' \<and> length (show_nat (nat (- i))) > 1)"
    using hd_show_nat [of "nat (- i)"] length_show_nat [of "nat (- i)"] True by auto
  show ?thesis
    using assms True ne z
    by (auto simp: show_int_def parse_number_def Let_def takeWhile_digits [OF d e]
        dropWhile_digits [OF d e] nat_of_digits_show_nat number_end_def)
qed

subsection \<open>Strings\<close>

lemma hex_val_hex_char: "d < 16 \<Longrightarrow> hex_val (hex_char d) = Some d"
  by (auto simp: hex_val_def hex_char_def Let_def)

lemma hex_val_zero: "hex_val CHR ''0'' = Some 0"
  by (simp add: hex_val_def)

lemma unescape_u:
  assumes "(of_char c :: nat) < 32"
  shows "unescape (CHR ''u'' # CHR ''0'' # CHR ''0'' # hex_char (of_char c div 16)
           # hex_char (of_char c mod 16) # t) = Some (c, 5)"
proof -
  have "(of_char c :: nat) div 16 < 16" using assms by simp
  then have a: "hex_val (hex_char (of_char c div 16)) = Some (of_char c div 16)"
    by (rule hex_val_hex_char)
  have b: "hex_val (hex_char (of_char c mod 16)) = Some (of_char c mod 16)"
    by (rule hex_val_hex_char) simp
  have "char_of (16 * ((of_char c :: nat) div 16) + of_char c mod 16) = c" by simp
  then show ?thesis by (simp add: unescape_def a b hex_val_zero)
qed

lemma parse_chars_quote_char:
  "parse_chars (quote_char c @ t) =
     (case parse_chars t of None \<Rightarrow> None | Some (s, r) \<Rightarrow> Some (c # s, r))"
proof -
  consider (simple) "c \<in> {CHR 0x08, CHR 0x09, CHR 0x0A, CHR 0x0C, CHR 0x0D, CHR 0x22, CHR 0x5C}"
    | (ctl) "c \<notin> {CHR 0x08, CHR 0x09, CHR 0x0A, CHR 0x0C, CHR 0x0D, CHR 0x22, CHR 0x5C}"
        "(of_char c :: nat) < 32"
    | (plain) "c \<notin> {CHR 0x08, CHR 0x09, CHR 0x0A, CHR 0x0C, CHR 0x0D, CHR 0x22, CHR 0x5C}"
        "\<not> (of_char c :: nat) < 32"
    by blast
  then show ?thesis
  proof cases
    case simple
    then show ?thesis by (auto simp: quote_char_def unescape_def)
  next
    case ctl
    then show ?thesis by (simp add: quote_char_def unescape_u)
  next
    case plain
    then show ?thesis by (simp add: quote_char_def)
  qed
qed

lemma parse_chars_quoted:
  "parse_chars (concat (map quote_char s) @ CHR 0x22 # r) = Some (s, r)"
  by (induction s) (simp_all add: parse_chars_quote_char)

lemma parse_scalar_quote: "parse_scalar (quote s @ r) = Some (JStr s, r)"
  by (simp add: parse_scalar_def quote_def parse_chars_quoted)

subsection \<open>Values\<close>

lemma skip_ws_Cons: "\<not> is_ws c \<Longrightarrow> skip_ws (c # r) = c # r"
  by (simp add: skip_ws_def)

lemma show_nat_hd: "\<exists>c cs. show_nat n = c # cs \<and> is_digit c"
  using show_nat_digits [of n] show_nat_nonempty [of n] by (cases "show_nat n") auto

lemma show_int_hd: "\<exists>c cs. show_int i = c # cs \<and> (is_digit c \<or> c = CHR ''-'')"
  using show_nat_hd [of "nat i"] show_nat_hd [of "nat (- i)"] by (auto simp: show_int_def)

lemma stringify_hd: "\<exists>c cs. stringify v = c # cs \<and> value_start c"
proof (cases v)
  case (JNum i)
  then show ?thesis
    using show_int_hd [of i] by (auto simp: value_start_def is_ws_def is_digit_def)
qed (auto simp: value_start_def is_ws_def quote_def)

lemma parse_value_null: "parse_value (Suc n) (''null'' @ r) = Some (JNull, r)"
  by (simp add: skip_ws_def is_ws_def parse_scalar_def)

lemma parse_value_bool:
  "parse_value (Suc n) ((if b then ''true'' else ''false'') @ r) = Some (JBool b, r)"
  by (simp add: skip_ws_def is_ws_def parse_scalar_def)

lemma parse_value_str: "parse_value (Suc n) (quote s @ r) = Some (JStr s, r)"
proof -
  have "parse_value (Suc n) (quote s @ r) = parse_scalar (quote s @ r)"
    by (simp add: quote_def skip_ws_def is_ws_def)
  then show ?thesis by (simp add: parse_scalar_quote)
qed

lemma parse_value_num:
  assumes "- max_safe_integer \<le> i" "i \<le> max_safe_integer" "number_end r"
  shows "parse_value (Suc n) (show_int i @ r) = Some (JNum i, r)"
proof -
  obtain c cs where c: "show_int i = c # cs" "is_digit c \<or> c = CHR ''-''"
    using show_int_hd by blast
  then have "parse_value (Suc n) (show_int i @ r) = parse_scalar (show_int i @ r)"
    by (auto simp: skip_ws_def is_ws_def is_digit_def)
  also have "\<dots> = parse_number (show_int i @ r)"
    using c by (auto simp: parse_scalar_def is_digit_def)
  finally show ?thesis using assms by (simp add: parse_number_show_int)
qed

lemma parse_value_open_arr:
  assumes "xs \<noteq> []"
  shows "parse_value (Suc n) (CHR ''['' # stringify_elements xs @ t) =
         parse_elements n [] (stringify_elements xs @ t)"
proof -
  obtain x xs' where xs: "xs = x # xs'" using assms by (cases xs) auto
  obtain c cs where c: "stringify x = c # cs" "value_start c" using stringify_hd by blast
  show ?thesis using c by (simp add: xs skip_ws_def is_ws_def value_start_def)
qed

lemma parse_value_open_obj:
  assumes "kvs \<noteq> []"
  shows "parse_value (Suc n) (CHR ''{'' # stringify_members kvs @ t) =
         parse_members n [] (stringify_members kvs @ t)"
proof -
  obtain k v kvs' where kvs: "kvs = (k, v) # kvs'" using assms by (cases kvs) auto
  show ?thesis by (simp add: kvs skip_ws_def is_ws_def quote_def)
qed

lemma number_end_sep:
  "number_end (CHR '','' # t)" "number_end (CHR '']'' # t)" "number_end (CHR ''}'' # t)"
  "number_end []"
  by (simp_all add: number_end_def is_digit_def)

lemma insert_index_append:
  "\<forall>a \<in> fst ` set kvs. \<exists>j. array_index a = Some j \<and> j < i \<Longrightarrow>
   insert_index i k v kvs = kvs @ [(k, v)]"
  by (induction kvs) auto

lemma obj_put_append:
  assumes "\<forall>a \<in> fst ` set kvs. key_before a k"
  shows "obj_put k v kvs = kvs @ [(k, v)]"
proof -
  have nk: "k \<notin> fst ` set kvs" using assms by (auto simp: key_before_def)
  show ?thesis
  proof (cases "array_index k")
    case None
    with nk show ?thesis by (simp add: obj_put_def)
  next
    case (Some i)
    have "\<forall>a \<in> fst ` set kvs. \<exists>j. array_index a = Some j \<and> j < i"
      using assms Some by (auto simp: key_before_def split: option.splits)
    then have "insert_index i k v kvs = kvs @ [(k, v)]" by (rule insert_index_append)
    with nk Some show ?thesis by (simp add: obj_put_def)
  qed
qed

lemma parse_members_step:
  assumes "parse_value n (stringify v @ d # t) = Some (v, d # t)" "\<not> is_ws d"
  shows "parse_members (Suc n) acc (quote k @ CHR '':'' # stringify v @ d # t) =
         (if d = CHR '','' then parse_members n (obj_put k v acc) t
          else if d = CHR ''}'' then Some (JObj (obj_put k v acc), t) else None)"
  using assms
  by (simp add: quote_def skip_ws_def is_ws_def parse_chars_quoted)

lemma parse_elements_step:
  assumes "parse_value n (stringify x @ d # t) = Some (x, d # t)" "\<not> is_ws d"
  shows "parse_elements (Suc n) acc (stringify x @ d # t) =
         (if d = CHR '','' then parse_elements n (acc @ [x]) t
          else if d = CHR '']'' then Some (JArr (acc @ [x]), t) else None)"
  using assms by (simp add: skip_ws_def)

lemma parse_stringify_aux:
  "js_value v \<Longrightarrow> need v \<le> n \<Longrightarrow> number_end rest \<Longrightarrow>
     parse_value n (stringify v @ rest) = Some (v, rest)"
  "xs \<noteq> [] \<Longrightarrow> js_values xs \<Longrightarrow> needs xs \<le> n \<Longrightarrow>
     parse_elements n acc (stringify_elements xs @ CHR '']'' # rest) = Some (JArr (acc @ xs), rest)"
  "kvs \<noteq> [] \<Longrightarrow> js_members kvs \<Longrightarrow> needm kvs \<le> n \<Longrightarrow>
     sorted_wrt key_before (map fst (acc' @ kvs)) \<Longrightarrow>
     parse_members n acc' (stringify_members kvs @ CHR ''}'' # rest) = Some (JObj (acc' @ kvs), rest)"
proof (induction v and xs and kvs arbitrary: n rest and n acc rest and n acc' rest
    rule: stringify_stringify_elements_stringify_members.induct)
  case 1
  then obtain m where "n = Suc m" by (cases n) auto
  then show ?case using parse_value_null by simp
next
  case (2 b)
  then obtain m where "n = Suc m" by (cases n) auto
  then show ?case using parse_value_bool [of m b rest] by simp
next
  case (3 i)
  then obtain m where "n = Suc m" by (cases n) auto
  with 3 show ?case using parse_value_num [of i rest m] by simp
next
  case (4 s)
  then obtain m where "n = Suc m" by (cases n) auto
  then show ?case using parse_value_str by simp
next
  case (5 xs)
  then obtain m where m: "n = Suc m" "needs xs \<le> m" by (cases n) auto
  show ?case
  proof (cases "xs = []")
    case True
    then show ?thesis by (simp add: m skip_ws_def is_ws_def)
  next
    case False
    have "parse_value n (stringify (JArr xs) @ rest) =
          parse_elements m [] (stringify_elements xs @ CHR '']'' # rest)"
      using parse_value_open_arr [OF False, of m "CHR '']'' # rest"] by (simp add: m)
    also have "\<dots> = Some (JArr ([] @ xs), rest)"
      using 5 False m by (intro "5.IH") auto
    finally show ?thesis by simp
  qed
next
  case (6 kvs)
  then obtain m where m: "n = Suc m" "needm kvs \<le> m" by (cases n) auto
  show ?case
  proof (cases "kvs = []")
    case True
    then show ?thesis by (simp add: m skip_ws_def is_ws_def)
  next
    case False
    have "parse_value n (stringify (JObj kvs) @ rest) =
          parse_members m [] (stringify_members kvs @ CHR ''}'' # rest)"
      using parse_value_open_obj [OF False, of m "CHR ''}'' # rest"] by (simp add: m)
    also have "\<dots> = Some (JObj ([] @ kvs), rest)"
      using 6 False m by (intro "6.IH") auto
    finally show ?thesis by simp
  qed
next
  case 7
  then show ?case by simp
next
  case (8 x xs)
  from "8.prems" obtain m where m: "n = Suc m" "need x \<le> m" "needs xs \<le> m" by (cases n) auto
  from "8.prems" have jx: "js_value x" and jxs: "js_values xs" by auto
  show ?case
  proof (cases "xs = []")
    case True
    have "parse_value m (stringify x @ CHR '']'' # rest) = Some (x, CHR '']'' # rest)"
      using jx m by (intro "8.IH"(1)) (auto simp: number_end_sep)
    then show ?thesis
      using parse_elements_step [of m x "CHR '']''" rest acc] True
      by (simp add: m is_ws_def)
  next
    case False
    let ?t = "stringify_elements xs @ CHR '']'' # rest"
    have "parse_value m (stringify x @ CHR '','' # ?t) = Some (x, CHR '','' # ?t)"
      using jx m by (intro "8.IH"(1)) (auto simp: number_end_sep)
    then have "parse_elements n acc (stringify_elements (x # xs) @ CHR '']'' # rest) =
          parse_elements m (acc @ [x]) ?t"
      using parse_elements_step [of m x "CHR '',''" ?t acc] False
      by (simp add: m is_ws_def)
    also have "\<dots> = Some (JArr ((acc @ [x]) @ xs), rest)"
      using False jxs m by (intro "8.IH"(2)) auto
    finally show ?thesis by simp
  qed
next
  case 9
  then show ?case by simp
next
  case (10 k v kvs)
  from "10.prems" obtain m where m: "n = Suc m" "need v \<le> m" "needm kvs \<le> m" by (cases n) auto
  from "10.prems" have jv: "js_value v" and jkvs: "js_members kvs" by auto
  from "10.prems" have "\<forall>a \<in> fst ` set acc'. key_before a k"
    by (auto simp: sorted_wrt_append)
  then have put: "obj_put k v acc' = acc' @ [(k, v)]" by (rule obj_put_append)
  show ?case
  proof (cases "kvs = []")
    case True
    have "parse_value m (stringify v @ CHR ''}'' # rest) = Some (v, CHR ''}'' # rest)"
      using jv m by (intro "10.IH"(1)) (auto simp: number_end_sep)
    then show ?thesis
      using parse_members_step [of m v "CHR ''}''" rest acc' k] True
      by (simp add: m is_ws_def put)
  next
    case False
    let ?t = "stringify_members kvs @ CHR ''}'' # rest"
    have "parse_value m (stringify v @ CHR '','' # ?t) = Some (v, CHR '','' # ?t)"
      using jv m by (intro "10.IH"(1)) (auto simp: number_end_sep)
    then have "parse_members n acc' (stringify_members ((k, v) # kvs) @ CHR ''}'' # rest) =
          parse_members m (acc' @ [(k, v)]) ?t"
      using parse_members_step [of m v "CHR '',''" ?t acc' k] False
      by (simp add: m is_ws_def put)
    also have "\<dots> = Some (JObj ((acc' @ [(k, v)]) @ kvs), rest)"
      using False jkvs m "10.prems" by (intro "10.IH"(2)) auto
    finally show ?thesis by simp
  qed
qed

lemma stringify_nonempty: "stringify v \<noteq> []"
  using stringify_hd [of v] by auto

lemma need_le_length:
  "need v \<le> 2 * length (stringify v)"
  "needs xs \<le> 2 * length (stringify_elements xs) + 1"
  "needm kvs \<le> 2 * length (stringify_members kvs) + 1"
proof (induction v and xs and kvs rule: stringify_stringify_elements_stringify_members.induct)
  case (3 n)
  then show ?case using stringify_nonempty [of "JNum n"] by (cases "show_int n") auto
next
  case (4 s)
  then show ?case by (simp add: quote_def)
qed auto

lemma json_parse_stringify:
  assumes "js_value v"
  shows "json_parse (stringify v) = Some v"
proof -
  have "need v \<le> 2 * length (stringify v) + 2"
    using need_le_length(1) [of v] by simp
  then have "parse_value (2 * length (stringify v) + 2) (stringify v @ []) = Some (v, [])"
    using assms by (intro parse_stringify_aux(1)) (auto simp: number_end_sep)
  then show ?thesis by (simp add: json_parse_def skip_ws_def)
qed

subsection \<open>Fuel\<close>

text \<open>Every successful parse consumes input, so the fuel of \<open>json_parse\<close> is never the
  reason for a failure.\<close>

lemma length_skip_ws: "length (skip_ws s) \<le> length s"
  by (simp add: skip_ws_def length_dropWhile_le)

lemma skip_ws_Cons_shorter: "skip_ws s = c # r \<Longrightarrow> length r < length s"
  using length_skip_ws [of s] by simp

lemma parse_chars_shorter: "parse_chars s = Some (k, r) \<Longrightarrow> length r < length s"
proof (induction s arbitrary: k r rule: length_induct)
  case (1 s)
  show ?case
  proof (cases s)
    case Nil
    with 1 show ?thesis by simp
  next
    case (Cons c cs)
    have IH: "\<And>t k' r'. length t < length s \<Longrightarrow> parse_chars t = Some (k', r') \<Longrightarrow> length r' < length t"
      using "1.IH" by blast
    from "1.prems" Cons show ?thesis
      by (auto split: if_splits option.splits prod.splits
          dest!: IH [rotated] intro: less_trans less_le_trans)
  qed
qed


lemma strip_prefix_shorter: "strip_prefix p s = Some r \<Longrightarrow> length s = length p + length r"
  by (induction p s rule: strip_prefix.induct) (auto split: if_splits)

lemma parse_number_shorter: "parse_number s = Some (v, r) \<Longrightarrow> length r < length s"
proof -
  assume a: "parse_number s = Some (v, r)"
  define t where "t = (if s \<noteq> [] \<and> hd s = CHR ''-'' then tl s else s)"
  have ts: "length t \<le> length s" by (simp add: t_def)
  from a have ne: "takeWhile is_digit t \<noteq> []" and r: "r = dropWhile is_digit t"
    by (auto simp: parse_number_def Let_def t_def split: if_splits)
  have "length t = length (takeWhile is_digit t) + length (dropWhile is_digit t)"
    by (metis length_append takeWhile_dropWhile_id)
  with ne r ts show ?thesis by (cases "takeWhile is_digit t") auto
qed

lemma parse_scalar_shorter: "parse_scalar s = Some (v, r) \<Longrightarrow> length r < length s"
  by (auto simp: parse_scalar_def split: list.splits if_splits option.splits
      dest: parse_chars_shorter parse_number_shorter strip_prefix_shorter)

lemma parse_shorter:
  "parse_value n s = Some (v, r) \<Longrightarrow> length r < length s"
  "parse_elements n acc s = Some (v, r) \<Longrightarrow> length r < length s"
  "parse_members n acc' s = Some (v, r) \<Longrightarrow> length r < length s"
proof (induction n s and n acc s and n acc' s arbitrary: v r and v r and v r
    rule: parse_value_parse_elements_parse_members.induct)
  case (1 s)
  then show ?case by simp
next
  case (2 n s)
  from "2.prems" show ?case
  proof (cases "skip_ws s")
    case Nil
    with "2.prems" show ?thesis by simp
  next
    case (Cons c t)
    have ct: "length t < length s" using Cons by (rule skip_ws_Cons_shorter)
    consider (arr) "c = CHR ''[''" | (obj) "c \<noteq> CHR ''[''" "c = CHR ''{''"
      | (sc) "c \<noteq> CHR ''[''" "c \<noteq> CHR ''{''" by blast
    then show ?thesis
    proof cases
      case arr
      show ?thesis
      proof (cases "skip_ws t")
        case Nil
        with "2.prems" Cons arr show ?thesis by simp
      next
        case (Cons d t')
        note dt = this
        show ?thesis
        proof (cases "d = CHR '']''")
          case True
          with "2.prems" \<open>skip_ws s = c # t\<close> arr dt have "r = t'" by simp
          with skip_ws_Cons_shorter [OF dt] ct show ?thesis by simp
        next
          case False
          with "2.prems" \<open>skip_ws s = c # t\<close> arr dt
          have "parse_elements n [] t = Some (v, r)" by simp
          from "2.IH"(1) [OF \<open>skip_ws s = c # t\<close> arr dt False this] ct
          show ?thesis by simp
        qed
      qed
    next
      case obj
      show ?thesis
      proof (cases "skip_ws t")
        case Nil
        with "2.prems" Cons obj show ?thesis by simp
      next
        case (Cons d t')
        note dt = this
        show ?thesis
        proof (cases "d = CHR ''}''")
          case True
          with "2.prems" \<open>skip_ws s = c # t\<close> obj dt have "r = t'" by simp
          with skip_ws_Cons_shorter [OF dt] ct show ?thesis by simp
        next
          case False
          with "2.prems" \<open>skip_ws s = c # t\<close> obj dt
          have "parse_members n [] t = Some (v, r)" by simp
          from "2.IH"(2) [OF \<open>skip_ws s = c # t\<close> obj dt False this] ct
          show ?thesis by simp
        qed
      qed
    next
      case sc
      with "2.prems" Cons have "parse_scalar (c # t) = Some (v, r)" by simp
      from parse_scalar_shorter [OF this] length_skip_ws [of s] Cons show ?thesis by simp
    qed
  qed
next
  case (3 acc s)
  then show ?case by simp
next
  case (4 n acc s)
  from "4.prems" obtain x t where x: "parse_value n s = Some (x, t)"
    by (auto split: option.splits)
  have xt: "length t < length s" using "4.IH"(1) [OF x] .
  from "4.prems" x obtain c t' where c: "skip_ws t = c # t'"
    by (auto split: list.splits)
  have ct: "length t' < length t" using c by (rule skip_ws_Cons_shorter)
  show ?case
  proof (cases "c = CHR '',''")
    case True
    with "4.prems" x c have "parse_elements n (acc @ [x]) t' = Some (v, r)" by simp
    from "4.IH"(2) [OF x refl c True this] xt ct show ?thesis by simp
  next
    case False
    with "4.prems" x c have "r = t'" by (auto split: if_splits)
    with xt ct show ?thesis by simp
  qed
next
  case (5 acc s)
  then show ?case by simp
next
  case (6 n acc s)
  from "6.prems" obtain q t where q: "skip_ws s = q # t" by (auto split: list.splits)
  from "6.prems" q have qq: "\<not> q \<noteq> CHR 0x22" by (auto split: if_splits)
  from "6.prems" q qq obtain k t1 where k: "parse_chars t = Some (k, t1)"
    by (auto split: option.splits)
  from "6.prems" q qq k obtain c t2 where c: "skip_ws t1 = c # t2"
    by (auto split: list.splits)
  from "6.prems" q qq k c have cc: "\<not> c \<noteq> CHR '':''" by (auto split: if_splits)
  from "6.prems" q qq k c cc obtain x t3 where x: "parse_value n t2 = Some (x, t3)"
    by (auto split: option.splits)
  from "6.prems" q qq k c cc x obtain d t4 where d: "skip_ws t3 = d # t4"
    by (auto split: list.splits)
  have l: "length t < length s" "length t1 < length t" "length t2 < length t1"
    "length t3 < length t2" "length t4 < length t3"
    using skip_ws_Cons_shorter [OF q] parse_chars_shorter [OF k] skip_ws_Cons_shorter [OF c]
      "6.IH"(1) [OF q qq k refl c cc x] skip_ws_Cons_shorter [OF d]
    by simp_all
  show ?case
  proof (cases "d = CHR '',''")
    case True
    with "6.prems" q qq k c cc x d
    have "parse_members n (obj_put k x acc) t4 = Some (v, r)" by simp
    from "6.IH"(2) [OF q qq k refl c cc x refl d True this] l
    show ?thesis by simp
  next
    case False
    with "6.prems" q qq k c cc x d have "r = t4" by (auto split: if_splits)
    with l show ?thesis by simp
  qed
qed


lemma parse_fuel:
  "2 * length s + 1 \<le> n \<Longrightarrow> n \<le> m \<Longrightarrow> parse_value m s = parse_value n s"
  "2 * length s + 2 \<le> n \<Longrightarrow> n \<le> m \<Longrightarrow> parse_elements m acc s = parse_elements n acc s"
  "2 * length s + 2 \<le> n \<Longrightarrow> n \<le> m \<Longrightarrow> parse_members m acc' s = parse_members n acc' s"
proof (induction n s and n acc s and n acc' s arbitrary: m and m and m
    rule: parse_value_parse_elements_parse_members.induct)
  case (1 s)
  then show ?case by simp
next
  case (2 n s)
  from "2.prems" obtain m' where m: "m = Suc m'" "n \<le> m'" by (cases m) auto
  show ?case
  proof (cases "skip_ws s")
    case Nil
    then show ?thesis by (simp add: m)
  next
    case (Cons c t)
    note ct = this
    have lt: "length t < length s" using ct by (rule skip_ws_Cons_shorter)
    show ?thesis
    proof (cases "skip_ws t")
      case Nil
      then show ?thesis by (simp add: m ct)
    next
      case (Cons d t')
      note dt = this
      have e: "c = CHR ''['' \<Longrightarrow> d \<noteq> CHR '']'' \<Longrightarrow> parse_elements m' [] t = parse_elements n [] t"
        using "2.IH"(1) [OF ct _ dt, of m'] "2.prems" lt m by simp
      have o: "c \<noteq> CHR ''['' \<Longrightarrow> c = CHR ''{'' \<Longrightarrow> d \<noteq> CHR ''}'' \<Longrightarrow>
          parse_members m' [] t = parse_members n [] t"
        using "2.IH"(2) [OF ct _ _ dt, of m'] "2.prems" lt m by simp
      show ?thesis using e o by (simp add: m ct dt)
    qed
  qed
next
  case (3 acc s)
  then show ?case by simp
next
  case (4 n acc s)
  from "4.prems" obtain m' where m: "m = Suc m'" "n \<le> m'" by (cases m) auto
  have pv: "parse_value m' s = parse_value n s"
    using "4.IH"(1) [of m'] "4.prems" m by simp
  show ?case
  proof (cases "parse_value n s")
    case None
    then show ?thesis by (simp add: m pv)
  next
    case (Some xt)
    obtain x t where xt: "xt = (x, t)" by (cases xt)
    have x: "parse_value n s = Some (x, t)" using Some xt by simp
    have lt: "length t < length s" using x by (rule parse_shorter(1))
    show ?thesis
    proof (cases "skip_ws t")
      case Nil
      then show ?thesis by (simp add: m pv x)
    next
      case (Cons c t')
      have lt': "length t' < length t" using Cons by (rule skip_ws_Cons_shorter)
      have "c = CHR '','' \<Longrightarrow>
          parse_elements m' (acc @ [x]) t' = parse_elements n (acc @ [x]) t'"
        using "4.IH"(2) [OF x refl Cons, of m'] "4.prems" lt lt' m by simp
      then show ?thesis by (simp add: m pv x Cons)
    qed
  qed
next
  case (5 acc s)
  then show ?case by simp
next
  case (6 n acc s)
  from "6.prems" obtain m' where m: "m = Suc m'" "n \<le> m'" by (cases m) auto
  show ?case
  proof (cases "skip_ws s")
    case Nil
    then show ?thesis by (simp add: m)
  next
    case (Cons q t)
    note q = this
    have l0: "length t < length s" using q by (rule skip_ws_Cons_shorter)
    show ?thesis
    proof (cases "q \<noteq> CHR 0x22")
      case True
      then show ?thesis by (simp add: m q)
    next
      case False
      note qq = this
      show ?thesis
      proof (cases "parse_chars t")
        case None
        then show ?thesis using qq by (simp add: m q)
      next
        case (Some kt)
        obtain k t1 where kt: "kt = (k, t1)" by (cases kt)
        have k: "parse_chars t = Some (k, t1)" using Some kt by simp
        have l1: "length t1 < length t" using k by (rule parse_chars_shorter)
        show ?thesis
        proof (cases "skip_ws t1")
          case Nil
          then show ?thesis using qq by (simp add: m q k)
        next
          case (Cons c t2)
          note c = this
          have l2: "length t2 < length t1" using c by (rule skip_ws_Cons_shorter)
          show ?thesis
          proof (cases "c \<noteq> CHR '':''")
            case True
            then show ?thesis using qq by (simp add: m q k c)
          next
            case False
            note cc = this
            have pv: "parse_value m' t2 = parse_value n t2"
              using "6.IH"(1) [OF q qq k refl c cc, of m'] "6.prems" l0 l1 l2 m by simp
            show ?thesis
            proof (cases "parse_value n t2")
              case None
              then show ?thesis using qq cc by (simp add: m q k c pv)
            next
              case (Some xt)
              obtain x t3 where xt: "xt = (x, t3)" by (cases xt)
              have x: "parse_value n t2 = Some (x, t3)" using Some xt by simp
              have l3: "length t3 < length t2" using x by (rule parse_shorter(1))
              show ?thesis
              proof (cases "skip_ws t3")
                case Nil
                then show ?thesis using qq cc by (simp add: m q k c pv x)
              next
                case (Cons d t4)
                have l4: "length t4 < length t3" using Cons by (rule skip_ws_Cons_shorter)
                have "d = CHR '','' \<Longrightarrow>
                    parse_members m' (obj_put k x acc) t4 = parse_members n (obj_put k x acc) t4"
                  using "6.IH"(2) [OF q qq k refl c cc x refl Cons, of m'] "6.prems"
                    l0 l1 l2 l3 l4 m by simp
                then show ?thesis using qq cc by (simp add: m q k c pv x Cons)
              qed
            qed
          qed
        qed
      qed
    qed
  qed
qed

lemma json_parse_fuel:
  "2 * length s + 2 \<le> m \<Longrightarrow>
   json_parse s = (case parse_value m s of None \<Rightarrow> None
                   | Some (v, r) \<Rightarrow> if skip_ws r = [] then Some v else None)"
  using parse_fuel(1) [of s "2 * length s + 2" m] by (simp add: json_parse_def)

section \<open>Properties of the handlers\<close>

subsection \<open>Statistics\<close>




subsection \<open>Deleting all rows\<close>

text \<open>
  Claim C6. When the statement does not fail, \<^verbatim>\<open>DELETE /api/guests\<close> (and likewise
  \<^verbatim>\<open>DELETE /api/orders\<close>) empties the table and answers with the number of rows removed in
  the field \<^verbatim>\<open>deleted\<close>. On an empty table the answer is \<^verbatim>\<open>deleted = 0\<close> and the store is
  unchanged.
\<close>

theorem deleteAll_counts:
  "\<not> fails e 0 \<longrightarrow>
     delete_api_guests e st =
       (res_json 200 (JObj [(''success'', JBool True), (''message'', JStr ''All guests cleared''),
          (''deleted'', JNum (int (length (guests st))))]), st\<lparr>guests := []\<rparr>) \<and>
     delete_api_orders e st =
       (res_json 200 (JObj [(''success'', JBool True), (''message'', JStr ''All orders cleared''),
          (''deleted'', JNum (int (length (orders st))))]), st\<lparr>orders := []\<rparr>) \<and>
     (guests st = [] \<longrightarrow>
        response_field ''deleted'' (fst (delete_api_guests e st)) = Some (JNum 0) \<and>
        snd (delete_api_guests e st) = st) \<and>
     (orders st = [] \<longrightarrow>
        response_field ''deleted'' (fst (delete_api_orders e st)) = Some (JNum 0) \<and>
        snd (delete_api_orders e st) = st)"
  by (simp add: delete_api_guests_def delete_from_guests_def delete_api_orders_def
      delete_from_orders_def response_field_def field_def res_json_def)

text \<open>Clearing a store of two guests and one order, and clearing the empty store.\<close>

theorem deleteAll_witness:
  "\<not> fails quiet 0 \<and>
   response_field ''deleted'' (fst (delete_api_guests quiet sample_store)) = Some (JNum 2) \<and>
   guests (snd (delete_api_guests quiet sample_store)) = [] \<and>
   response_field ''deleted'' (fst (delete_api_orders quiet sample_store)) = Some (JNum 1) \<and>
   orders (snd (delete_api_orders quiet sample_store)) = [] \<and>
   response_field ''deleted'' (fst (delete_api_guests quiet empty_store)) = Some (JNum 0) \<and>
   snd (delete_api_guests quiet empty_store) = empty_store"
  using deleteAll_counts [where e = quiet and st = sample_store]
    deleteAll_counts [where e = quiet and st = empty_store]
  by (simp add: fails_def quiet_def sample_store_def empty_store_def response_field_def field_def
      res_json_def)

subsection \<open>Validation of create requests\<close>

text \<open>
  Claim C2, as stated, fails for the \<^verbatim>\<open>photos\<close> field: the handler tests \<^verbatim>\<open>!photos\<close>, and an
  empty array is truthy in JavaScript. An order whose photos list is empty is accepted with
  status 200 and adds a row.
\<close>

theorem empty_photos_accepted:
  "status (fst (post_api_orders plain_coercions quiet (ann @ [(''photos'', JArr [])]) empty_store)) = 200 \<and>
   length (orders (snd (post_api_orders plain_coercions quiet (ann @ [(''photos'', JArr [])]) empty_store)))
     = Suc (length (orders empty_store))"
  by code_simp

text \<open>
  Claim C2, amended. A create request in which a required field (\<^verbatim>\<open>name\<close>, \<^verbatim>\<open>email\<close>,
  \<^verbatim>\<open>galleryName\<close>, \<^verbatim>\<open>galleryId\<close>, and for orders \<^verbatim>\<open>photos\<close>) is absent or falsy (\<^verbatim>\<open>null\<close>,
  \<^verbatim>\<open>false\<close>, \<^verbatim>\<open>0\<close> or the empty string) is answered with status 400 and an \<^verbatim>\<open>error\<close> body, and
  the store is unchanged.
\<close>

theorem create_rejects_falsy_fields:
  "(\<not> truthy (map_of body ''name'') \<or> \<not> truthy (map_of body ''email'') \<or>
    \<not> truthy (map_of body ''galleryName'') \<or> \<not> truthy (map_of body ''galleryId'') \<longrightarrow>
      post_api_guests cz e body st = (missing_fields, st)) \<and>
   (\<not> truthy (map_of body ''name'') \<or> \<not> truthy (map_of body ''email'') \<or>
    \<not> truthy (map_of body ''galleryName'') \<or> \<not> truthy (map_of body ''galleryId'') \<or>
    \<not> truthy (map_of body ''photos'') \<longrightarrow>
      post_api_orders cz e body st = (missing_fields, st)) \<and>
   status missing_fields = 400 \<and>
   content missing_fields = Json (JObj [(''error'', JStr ''Missing required fields'')])"
  by (auto simp: post_api_guests_def post_api_orders_def Let_def missing_fields_def res_json_def)

text \<open>A request whose \<^verbatim>\<open>email\<close> is the empty string, against a store that holds rows.\<close>

theorem create_rejects_falsy_fields_witness:
  "\<not> truthy (map_of [(''name'', JStr ''Ann''), (''email'', JStr []), (''galleryName'', JStr ''Spring''),
       (''galleryId'', JStr ''g1''), (''photos'', JArr [JStr ''p1''])] ''email'') \<and>
   post_api_guests plain_coercions quiet
     [(''name'', JStr ''Ann''), (''email'', JStr []), (''galleryName'', JStr ''Spring''),
      (''galleryId'', JStr ''g1''), (''photos'', JArr [JStr ''p1''])] sample_store
     = (missing_fields, sample_store) \<and>
   post_api_orders plain_coercions quiet
     [(''name'', JStr ''Ann''), (''email'', JStr []), (''galleryName'', JStr ''Spring''),
      (''galleryId'', JStr ''g1''), (''photos'', JArr [JStr ''p1''])] sample_store
     = (missing_fields, sample_store)"
  using create_rejects_falsy_fields [where body =
      "[(''name'', JStr ''Ann''), (''email'', JStr []), (''galleryName'', JStr ''Spring''),
        (''galleryId'', JStr ''g1''), (''photos'', JArr [JStr ''p1''])]"
      and cz = plain_coercions and e = quiet and st = sample_store]
  by (simp add: truthy_def)

subsection \<open>Row identifiers\<close>

lemma fold_max_ge: "(s::int) \<le> fold max xs s"
  by (induction xs arbitrary: s) (auto intro: order_trans [OF max.cobounded2])

lemma fold_max_mem: "x \<in> set xs \<Longrightarrow> (x::int) \<le> fold max xs s"
proof (induction xs arbitrary: s)
  case Nil
  then show ?case by simp
next
  case (Cons y ys)
  show ?case
  proof (cases "x = y")
    case True
    have "max y s \<le> fold max ys (max y s)" by (rule fold_max_ge)
    with True show ?thesis by simp
  next
    case False
    with Cons show ?thesis by simp
  qed
qed

lemma fold_max_bounded: "list_all (\<lambda>x. x \<le> s) xs \<Longrightarrow> fold max xs (s::int) = s"
  by (induction xs) (simp_all add: max_absorb2)

lemma next_rowid_Some:
  assumes "next_rowid seq ids = Some i"
  shows "seq < i" and "\<forall>x \<in> set ids. x < i"
proof -
  from assms have i: "i = fold max ids seq + 1"
    by (auto simp: next_rowid_def Let_def split: if_splits)
  show "seq < i" using fold_max_ge [of seq ids] i by simp
  show "\<forall>x \<in> set ids. x < i" using fold_max_mem [of _ ids seq] i by fastforce
qed

lemma next_rowid_inv:
  assumes "list_all (\<lambda>x. x \<le> seq) ids" "seq < max_rowid"
  shows "next_rowid seq ids = Some (seq + 1)"
  using assms by (simp add: next_rowid_def fold_max_bounded)

subsection \<open>Binding\<close>

lemma bind_param_truthy: "truthy v \<Longrightarrow> \<exists>t. bind_param cz v = Some t"
  by (cases v) (auto simp: truthy_def bind_param_def bind_text_def split: json.splits)

lemma bind_text_js_or: "\<exists>t. bind_text cz (js_or v (JStr s)) = Some t"
  by (cases v) (auto simp: js_or_def bind_text_def split: json.splits)

lemma bind_text_js_or_falsy: "\<not> truthy v \<Longrightarrow> bind_text cz (js_or v (JStr s)) = Some s"
  by (cases v) (auto simp: js_or_def bind_text_def truthy_def)

subsection \<open>Successful inserts\<close>

lemma post_api_guests_inserts:
  assumes "truthy (map_of body ''name'')" "truthy (map_of body ''email'')"
    "truthy (map_of body ''galleryName'')" "truthy (map_of body ''galleryId'')"
    "\<not> fails e 0" "next_rowid (guests_seq st) (map g_id (guests st)) = Some i"
  shows "\<exists>n m gn gi vd.
    bind_param cz (map_of body ''name'') = Some n \<and>
    bind_param cz (map_of body ''email'') = Some m \<and>
    bind_param cz (map_of body ''galleryName'') = Some gn \<and>
    bind_param cz (map_of body ''galleryId'') = Some gi \<and>
    bind_text cz (js_or (map_of body ''visitDate'') (JStr (iso_now e))) = Some vd \<and>
    post_api_guests cz e body st =
      (res_json 200 (JObj [(''success'', JBool True), (''id'', JNum i),
         (''message'', JStr ''Guest info saved successfully'')]),
       st\<lparr>guests := guests st @
            [\<lparr>g_id = i, g_name = n, g_email = m, g_gallery_name = gn, g_gallery_id = gi,
              g_visit_date = vd, g_created_at = sql_now e\<rparr>],
          guests_seq := i\<rparr>)"
proof -
  obtain n where n: "bind_param cz (map_of body ''name'') = Some n"
    using assms(1) bind_param_truthy by blast
  obtain m where m: "bind_param cz (map_of body ''email'') = Some m"
    using assms(2) bind_param_truthy by blast
  obtain gn where gn: "bind_param cz (map_of body ''galleryName'') = Some gn"
    using assms(3) bind_param_truthy by blast
  obtain gi where gi: "bind_param cz (map_of body ''galleryId'') = Some gi"
    using assms(4) bind_param_truthy by blast
  obtain vd where vd: "bind_text cz (js_or (map_of body ''visitDate'') (JStr (iso_now e))) = Some vd"
    using bind_text_js_or by blast
  show ?thesis
    using assms n m gn gi vd by (simp add: post_api_guests_def insert_guest_def Let_def)
qed

lemma post_api_orders_inserts:
  assumes "truthy (map_of body ''name'')" "truthy (map_of body ''email'')"
    "truthy (map_of body ''galleryName'')" "truthy (map_of body ''galleryId'')"
    "map_of body ''photos'' = Some p" "truthy_value p" "bind_integer cz (js_length p) = Some pc"
    "\<not> fails e 0" "next_rowid (orders_seq st) (map o_id (orders st)) = Some i"
  shows "\<exists>n m gn gi sa.
    bind_param cz (map_of body ''name'') = Some n \<and>
    bind_param cz (map_of body ''email'') = Some m \<and>
    bind_param cz (map_of body ''galleryName'') = Some gn \<and>
    bind_param cz (map_of body ''galleryId'') = Some gi \<and>
    bind_text cz (js_or (map_of body ''submittedAt'') (JStr (iso_now e))) = Some sa \<and>
    post_api_orders cz e body st =
      (res_json 200 (JObj [(''success'', JBool True), (''id'', JNum i),
         (''message'', JStr ''Order submitted successfully'')]),
       st\<lparr>orders := orders st @
            [\<lparr>o_id = i, o_name = n, o_email = m, o_gallery_name = gn, o_gallery_id = gi,
              o_photo_count = pc, o_photos = stringify p, o_submitted_at = sa,
              o_created_at = sql_now e\<rparr>],
          orders_seq := i\<rparr>)"
proof -
  obtain n where n: "bind_param cz (map_of body ''name'') = Some n"
    using assms(1) bind_param_truthy by blast
  obtain m where m: "bind_param cz (map_of body ''email'') = Some m"
    using assms(2) bind_param_truthy by blast
  obtain gn where gn: "bind_param cz (map_of body ''galleryName'') = Some gn"
    using assms(3) bind_param_truthy by blast
  obtain gi where gi: "bind_param cz (map_of body ''galleryId'') = Some gi"
    using assms(4) bind_param_truthy by blast
  obtain sa where sa: "bind_text cz (js_or (map_of body ''submittedAt'') (JStr (iso_now e))) = Some sa"
    using bind_text_js_or by blast
  show ?thesis
    using assms n m gn gi sa
    by (simp add: post_api_orders_def insert_order_def Let_def truthy_def)
qed

text \<open>
  Claim C10. In a create request that passes validation and whose insert succeeds, a
  \<^verbatim>\<open>visitDate\<close> (for orders: \<^verbatim>\<open>submittedAt\<close>) that is present but falsy is replaced by the
  server's current timestamp: the stored \<^verbatim>\<open>visit_date\<close> (\<^verbatim>\<open>submitted_at\<close>) of the new row is
  \<^verbatim>\<open>new Date().toISOString()\<close>. The default applies to every falsy value, not only to an
  absent one. (An insert succeeds when the statement does not fail, a rowid is left, and for
  orders the \<^verbatim>\<open>length\<close> of \<^verbatim>\<open>photos\<close> binds to a value that is not \<^verbatim>\<open>NULL\<close>.)
\<close>

theorem default_timestamp_for_falsy:
  "truthy (map_of body ''name'') \<and> truthy (map_of body ''email'') \<and>
   truthy (map_of body ''galleryName'') \<and> truthy (map_of body ''galleryId'') \<and>
   \<not> fails e 0 \<and> store_inv st \<longrightarrow>
     (map_of body ''visitDate'' = Some v \<and> \<not> truthy_value v \<and> guests_seq st < max_rowid \<longrightarrow>
        status (fst (post_api_guests cz e body st)) = 200 \<and>
        map g_visit_date (guests (snd (post_api_guests cz e body st)))
          = map g_visit_date (guests st) @ [iso_now e]) \<and>
     (map_of body ''submittedAt'' = Some w \<and> \<not> truthy_value w \<and> orders_seq st < max_rowid \<and>
      map_of body ''photos'' = Some p \<and> truthy_value p \<and>
      bind_integer cz (js_length p) = Some pc \<longrightarrow>
        status (fst (post_api_orders cz e body st)) = 200 \<and>
        map o_submitted_at (orders (snd (post_api_orders cz e body st)))
          = map o_submitted_at (orders st) @ [iso_now e])"
proof (intro impI conjI; elim conjE)
  assume a: "truthy (map_of body ''name'')" "truthy (map_of body ''email'')"
    "truthy (map_of body ''galleryName'')" "truthy (map_of body ''galleryId'')"
    "\<not> fails e 0" "store_inv st"
  {
    assume b: "map_of body ''visitDate'' = Some v" "\<not> truthy_value v" "guests_seq st < max_rowid"
    have nr: "next_rowid (guests_seq st) (map g_id (guests st)) = Some (guests_seq st + 1)"
      using a(6) b(3) by (intro next_rowid_inv) (auto simp: store_inv_def list_all_iff)
    have vd: "bind_text cz (js_or (map_of body ''visitDate'') (JStr (iso_now e))) = Some (iso_now e)"
      using b by (intro bind_text_js_or_falsy) (simp add: truthy_def)
    from post_api_guests_inserts [OF a(1-5) nr, of cz] vd
    show "status (fst (post_api_guests cz e body st)) = 200"
      and "map g_visit_date (guests (snd (post_api_guests cz e body st)))
          = map g_visit_date (guests st) @ [iso_now e]"
      by (auto simp: res_json_def)
  }
  {
    assume b: "map_of body ''submittedAt'' = Some w" "\<not> truthy_value w" "orders_seq st < max_rowid"
      "map_of body ''photos'' = Some p" "truthy_value p" "bind_integer cz (js_length p) = Some pc"
    have nr: "next_rowid (orders_seq st) (map o_id (orders st)) = Some (orders_seq st + 1)"
      using a(6) b(3) by (intro next_rowid_inv) (auto simp: store_inv_def list_all_iff)
    have sa: "bind_text cz (js_or (map_of body ''submittedAt'') (JStr (iso_now e))) = Some (iso_now e)"
      using b by (intro bind_text_js_or_falsy) (simp add: truthy_def)
    from post_api_orders_inserts [OF a(1-4) b(4) b(5) b(6) a(5) nr] sa
    show "status (fst (post_api_orders cz e body st)) = 200"
      and "map o_submitted_at (orders (snd (post_api_orders cz e body st)))
          = map o_submitted_at (orders st) @ [iso_now e]"
      by (auto simp: res_json_def)
  }
qed


text \<open>A request with \<^verbatim>\<open>visitDate: ""\<close> and \<^verbatim>\<open>submittedAt: 0\<close> against a store holding rows.\<close>

theorem default_timestamp_witness:
  "truthy (map_of (ann @ [(''visitDate'', JStr []), (''submittedAt'', JNum 0),
       (''photos'', JArr [JStr ''p1''])]) ''name'') \<and>
   \<not> fails later 0 \<and> store_inv sample_store \<and> guests_seq sample_store < max_rowid \<and>
   \<not> truthy_value (JStr []) \<and> \<not> truthy_value (JNum 0) \<and>
   map g_visit_date (guests (snd (post_api_guests plain_coercions later
       (ann @ [(''visitDate'', JStr []), (''submittedAt'', JNum 0), (''photos'', JArr [JStr ''p1''])])
       sample_store)))
     = [''2024-05-01T10:00:00.000Z'', ''2024-05-01T10:00:07.000Z'', iso_now later] \<and>
   map o_submitted_at (orders (snd (post_api_orders plain_coercions later
       (ann @ [(''visitDate'', JStr []), (''submittedAt'', JNum 0), (''photos'', JArr [JStr ''p1''])])
       sample_store)))
     = [''2024-05-01T10:00:00.000Z'', iso_now later]"
proof -
  have inv: "store_inv sample_store"
    by (simp add: store_inv_def sample_store_def guest1_def guest2_def order1_def photos_present_def)
       code_simp
  have h: "truthy (map_of (ann @ [(''visitDate'', JStr []), (''submittedAt'', JNum 0),
       (''photos'', JArr [JStr ''p1''])]) ''name'')"
    "truthy (map_of (ann @ [(''visitDate'', JStr []), (''submittedAt'', JNum 0),
       (''photos'', JArr [JStr ''p1''])]) ''email'')"
    "truthy (map_of (ann @ [(''visitDate'', JStr []), (''submittedAt'', JNum 0),
       (''photos'', JArr [JStr ''p1''])]) ''galleryName'')"
    "truthy (map_of (ann @ [(''visitDate'', JStr []), (''submittedAt'', JNum 0),
       (''photos'', JArr [JStr ''p1''])]) ''galleryId'')"
    "\<not> fails later 0"
    "guests_seq sample_store < max_rowid" "orders_seq sample_store < max_rowid"
    by (simp_all add: ann_def truthy_def fails_def later_def sample_store_def max_rowid_def)
  have m: "map_of (ann @ [(''visitDate'', JStr []), (''submittedAt'', JNum 0),
       (''photos'', JArr [JStr ''p1''])]) ''visitDate'' = Some (JStr [])"
    "map_of (ann @ [(''visitDate'', JStr []), (''submittedAt'', JNum 0),
       (''photos'', JArr [JStr ''p1''])]) ''submittedAt'' = Some (JNum 0)"
    "map_of (ann @ [(''visitDate'', JStr []), (''submittedAt'', JNum 0),
       (''photos'', JArr [JStr ''p1''])]) ''photos'' = Some (JArr [JStr ''p1''])"
    by (simp_all add: ann_def)
  have pc: "bind_integer plain_coercions (js_length (JArr [JStr ''p1''])) = Some (SInt 1)"
    by (simp add: bind_integer_def)
  show ?thesis
    using default_timestamp_for_falsy [where cz = plain_coercions and e = later and st = sample_store
        and body = "ann @ [(''visitDate'', JStr []), (''submittedAt'', JNum 0),
          (''photos'', JArr [JStr ''p1''])]"
        and v = "JStr []" and w = "JNum 0" and p = "JArr [JStr ''p1'']" and pc = "SInt 1"]
      inv h m pc
    by (simp add: sample_store_def guest1_def guest2_def order1_def)
qed

subsection \<open>Deleting one row\<close>

lemma filter_none: "\<forall>x \<in> set xs. \<not> P x \<Longrightarrow> filter P xs = []"
  by (induction xs) auto

lemma filter_all: "\<forall>x \<in> set xs. \<not> P x \<Longrightarrow> filter (\<lambda>x. \<not> P x) xs = xs"
  by (induction xs) auto

text \<open>
  Claim C7, as stated, fails in one respect: the response of \<^verbatim>\<open>DELETE /api/guests/:id\<close> reports
  no number of rows. For an id that matches no row the body is
  \<^verbatim>\<open>{success: true, message: 'Guest deleted'}\<close>, the same response as for an id whose row is
  removed; the statement's change count is never read.
\<close>

theorem deleteOne_reports_no_count:
  "content (fst (delete_api_guest plain_coercions quiet ''7'' sample_store))
     = Json (JObj [(''success'', JBool True), (''message'', JStr ''Guest deleted'')]) \<and>
   fst (delete_api_guest plain_coercions quiet ''7'' sample_store)
     = fst (delete_api_guest plain_coercions quiet ''1'' sample_store) \<and>
   length (guests (snd (delete_api_guest plain_coercions quiet ''1'' sample_store))) = 1 \<and>
   length (guests (snd (delete_api_guest plain_coercions quiet ''7'' sample_store))) = 2"
  by code_simp

text \<open>
  Claim C7, amended. When the statement does not fail and the id matches no guest (no
  order), the delete statement affects zero rows, the request is answered with status 200
  and the fixed body \<^verbatim>\<open>{success, message}\<close>, which carries no row count, and the store is
  unchanged. Deleting by id is idempotent: a second delete with the same id leaves the
  store as the first one left it.
\<close>

theorem deleteOne_missing_id:
  "\<not> fails e 0 \<longrightarrow>
     ((\<forall>r \<in> set (guests st). \<not> id_equals cz ident (g_id r)) \<longrightarrow>
        delete_guest_where_id cz e ident st = Inr (0, st) \<and>
        delete_api_guest cz e ident st =
          (res_json 200 (JObj [(''success'', JBool True), (''message'', JStr ''Guest deleted'')]), st)) \<and>
     ((\<forall>r \<in> set (orders st). \<not> id_equals cz ident (o_id r)) \<longrightarrow>
        delete_order_where_id cz e ident st = Inr (0, st) \<and>
        delete_api_order cz e ident st =
          (res_json 200 (JObj [(''success'', JBool True), (''message'', JStr ''Order deleted'')]), st)) \<and>
     snd (delete_api_guest cz e ident (snd (delete_api_guest cz e ident st)))
       = snd (delete_api_guest cz e ident st) \<and>
     snd (delete_api_order cz e ident (snd (delete_api_order cz e ident st)))
       = snd (delete_api_order cz e ident st)"
  by (simp add: delete_api_guest_def delete_guest_where_id_def delete_api_order_def
      delete_order_where_id_def filter_none filter_all)

text \<open>Deleting the id 7 from a store whose guests are 1 and 2 and whose only order is 1.\<close>

theorem deleteOne_missing_id_witness:
  "\<not> fails quiet 0 \<and>
   map g_id (guests sample_store) = [1, 2] \<and> map o_id (orders sample_store) = [1] \<and>
   \<not> id_equals plain_coercions ''7'' 1 \<and> \<not> id_equals plain_coercions ''7'' 2 \<and>
   delete_api_guest plain_coercions quiet ''7'' sample_store =
     (res_json 200 (JObj [(''success'', JBool True), (''message'', JStr ''Guest deleted'')]),
      sample_store) \<and>
   delete_api_order plain_coercions quiet ''7'' sample_store =
     (res_json 200 (JObj [(''success'', JBool True), (''message'', JStr ''Order deleted'')]),
      sample_store)"
proof -
  have f: "\<not> fails quiet 0" by (simp add: fails_def quiet_def)
  have g: "\<forall>r \<in> set (guests sample_store). \<not> id_equals plain_coercions ''7'' (g_id r)"
    by (simp add: sample_store_def guest1_def guest2_def id_equals_def plain_coercions_def) code_simp
  have h: "\<forall>r \<in> set (orders sample_store). \<not> id_equals plain_coercions ''7'' (o_id r)"
    by (simp add: sample_store_def order1_def id_equals_def plain_coercions_def) code_simp
  have i: "map g_id (guests sample_store) = [1, 2]" "map o_id (orders sample_store) = [1]"
    by (simp_all add: sample_store_def guest1_def guest2_def order1_def)
  have j: "\<not> id_equals plain_coercions ''7'' 1" "\<not> id_equals plain_coercions ''7'' 2"
    by (simp_all add: id_equals_def plain_coercions_def) code_simp+
  show ?thesis
    using deleteOne_missing_id [where cz = plain_coercions and e = quiet and st = sample_store
        and ident = "''7''"] f g h i j
    by simp
qed

subsection \<open>Identifiers of created guests\<close>







subsection \<open>Ordering by creation time\<close>

lemma mset_insert_desc: "mset (insert_desc key x xs) = add_mset x (mset xs)"
  by (induction xs) auto

lemma mset_order_by_desc: "mset (order_by_desc key xs) = mset xs"
  by (induction xs) (simp_all add: order_by_desc_def mset_insert_desc)


lemma set_insert_desc: "set (insert_desc key x xs) = insert x (set xs)"
  using mset_insert_desc [of key x xs] by (metis set_mset_mset set_mset_add_mset_insert)

lemma newest_first_insert_desc:
  "newest_first key xs \<Longrightarrow> newest_first key (insert_desc key x xs)"
proof (induction xs)
  case Nil
  then show ?case by (simp add: newest_first_def)
next
  case (Cons y ys)
  show ?case
  proof (cases "key y \<le> key x")
    case True
    with Cons.prems show ?thesis by (auto simp: newest_first_def)
  next
    case False
    then have "key x \<le> key y" by simp
    moreover have "newest_first key (insert_desc key x ys)"
      using Cons by (simp add: newest_first_def)
    ultimately show ?thesis
      using Cons.prems False by (auto simp: newest_first_def set_insert_desc)
  qed
qed

lemma newest_first_order_by_desc: "newest_first key (order_by_desc key xs)"
proof (induction xs)
  case Nil
  then show ?case by (simp add: order_by_desc_def newest_first_def)
next
  case (Cons x xs)
  then show ?case
    using newest_first_insert_desc [of key "order_by_desc key xs" x]
    by (simp add: order_by_desc_def)
qed


subsection \<open>CSV export\<close>

lemma join_lines: "join [c] (h # ls) = h @ concat (map (\<lambda>l. c # l) ls)"
  by (induction ls arbitrary: h) simp_all

lemma guest_csv_line_fields:
  "guest_csv_line r =
     join '','' [show_int (g_id r), wrap (g_name r), wrap (g_email r), wrap (g_gallery_name r),
       wrap (g_gallery_id r), wrap (g_visit_date r), wrap (g_created_at r)]"
  by (simp add: guest_csv_line_def wrap_def)

lemma order_csv_line_fields:
  "order_csv_line r =
     join '','' [show_int (o_id r), wrap (o_name r), wrap (o_email r), wrap (o_gallery_name r),
       wrap (o_gallery_id r), sqlval_text (o_photo_count r), wrap (o_submitted_at r),
       wrap (o_created_at r)]"
  by (simp add: order_csv_line_def wrap_def)

lemma export_guests_lines:
  "\<not> fails e 0 \<Longrightarrow>
     export_guests e st =
       res_csv ''guests.csv''
         (''ID,Name,Email,Gallery Name,Gallery ID,Visit Date,Created At'' @
          concat (map (\<lambda>r. CHR 0x0A # guest_csv_line r) (order_by_desc g_created_at (guests st))))"
  by (simp add: export_guests_def select_guests_def join_lines comp_def del: join.simps)

lemma export_orders_lines:
  "\<not> fails e 0 \<Longrightarrow>
     export_orders e st =
       res_csv ''orders.csv''
         (''ID,Name,Email,Gallery Name,Gallery ID,Photo Count,Submitted At,Created At'' @
          concat (map (\<lambda>r. CHR 0x0A # order_csv_line r) (order_by_desc o_created_at (orders st))))"
  by (simp add: export_orders_def select_orders_def join_lines comp_def del: join.simps)

lemma wrap_verbatim:
  "length (wrap s) = length s + 2" "take 1 (wrap s) = [CHR 0x22]" "drop 1 (butlast (wrap s)) = s"
  by (simp_all add: wrap_def butlast_append)

text \<open>
  Claim C9. When the query does not fail, each export answers with a text whose first line
  is the fixed header row, followed by one line per row of the table, all rows, newest
  first. A line is the comma-separated list of the row's fields, where every text field is
  wrapped in double quotes and the numeric fields \<^verbatim>\<open>id\<close> and \<^verbatim>\<open>photo_count\<close> are not. Wrapping
  copies the field value as it is: a double quote inside a value is not escaped.
\<close>

theorem export_csv_layout:
  "\<not> fails e 0 \<longrightarrow>
     export_guests e st =
       res_csv ''guests.csv''
         (''ID,Name,Email,Gallery Name,Gallery ID,Visit Date,Created At'' @
          concat (map (\<lambda>r. CHR 0x0A #
              join '','' [show_int (g_id r), wrap (g_name r), wrap (g_email r),
                wrap (g_gallery_name r), wrap (g_gallery_id r), wrap (g_visit_date r),
                wrap (g_created_at r)])
            (order_by_desc g_created_at (guests st)))) \<and>
     export_orders e st =
       res_csv ''orders.csv''
         (''ID,Name,Email,Gallery Name,Gallery ID,Photo Count,Submitted At,Created At'' @
          concat (map (\<lambda>r. CHR 0x0A #
              join '','' [show_int (o_id r), wrap (o_name r), wrap (o_email r),
                wrap (o_gallery_name r), wrap (o_gallery_id r), sqlval_text (o_photo_count r),
                wrap (o_submitted_at r), wrap (o_created_at r)])
            (order_by_desc o_created_at (orders st)))) \<and>
     mset (order_by_desc g_created_at (guests st)) = mset (guests st) \<and>
     newest_first g_created_at (order_by_desc g_created_at (guests st)) \<and>
     mset (order_by_desc o_created_at (orders st)) = mset (orders st) \<and>
     newest_first o_created_at (order_by_desc o_created_at (orders st)) \<and>
     length (wrap s) = length s + 2 \<and> take 1 (wrap s) = [CHR 0x22] \<and>
     drop 1 (butlast (wrap s)) = s"
proof
  assume f: "\<not> fails e 0"
  note g = export_guests_lines [OF f, of st, unfolded guest_csv_line_fields]
  note o = export_orders_lines [OF f, of st, unfolded order_csv_line_fields]
  show "export_guests e st =
       res_csv ''guests.csv''
         (''ID,Name,Email,Gallery Name,Gallery ID,Visit Date,Created At'' @
          concat (map (\<lambda>r. CHR 0x0A #
              join '','' [show_int (g_id r), wrap (g_name r), wrap (g_email r),
                wrap (g_gallery_name r), wrap (g_gallery_id r), wrap (g_visit_date r),
                wrap (g_created_at r)])
            (order_by_desc g_created_at (guests st)))) \<and>
     export_orders e st =
       res_csv ''orders.csv''
         (''ID,Name,Email,Gallery Name,Gallery ID,Photo Count,Submitted At,Created At'' @
          concat (map (\<lambda>r. CHR 0x0A #
              join '','' [show_int (o_id r), wrap (o_name r), wrap (o_email r),
                wrap (o_gallery_name r), wrap (o_gallery_id r), sqlval_text (o_photo_count r),
                wrap (o_submitted_at r), wrap (o_created_at r)])
            (order_by_desc o_created_at (orders st)))) \<and>
     mset (order_by_desc g_created_at (guests st)) = mset (guests st) \<and>
     newest_first g_created_at (order_by_desc g_created_at (guests st)) \<and>
     mset (order_by_desc o_created_at (orders st)) = mset (orders st) \<and>
     newest_first o_created_at (order_by_desc o_created_at (orders st)) \<and>
     length (wrap s) = length s + 2 \<and> take 1 (wrap s) = [CHR 0x22] \<and>
     drop 1 (butlast (wrap s)) = s"
    by (intro conjI g o mset_order_by_desc newest_first_order_by_desc wrap_verbatim)
qed

text \<open>The two exports of a store whose second guest has double quotes in the name.\<close>

theorem export_csv_witness:
  "\<not> fails quiet 0 \<and>
   content (export_guests quiet sample_store) =
     Text (''ID,Name,Email,Gallery Name,Gallery ID,Visit Date,Created At'' @ [CHR 0x0A] @
       ''2,\"Bob \"B\" Lee\",\"b@x.com\",\"Spring\",\"g1\",\"2024-05-01T10:00:07.000Z\",\"2024-05-01 10:00:07\"''
       @ [CHR 0x0A] @
       ''1,\"Ann\",\"a@x.com\",\"Spring\",\"g1\",\"2024-05-01T10:00:00.000Z\",\"2024-05-01 10:00:00\"'') \<and>
   content (export_orders quiet sample_store) =
     Text (''ID,Name,Email,Gallery Name,Gallery ID,Photo Count,Submitted At,Created At'' @ [CHR 0x0A] @
       ''1,\"Ann\",\"a@x.com\",\"Spring\",\"g1\",2,\"2024-05-01T10:00:00.000Z\",\"2024-05-01 10:00:00\"'')"
proof -
  have f: "\<not> fails quiet 0" by (simp add: fails_def quiet_def)
  have g: "order_by_desc g_created_at (guests sample_store) = [guest2, guest1]"
    by (simp add: order_by_desc_def sample_store_def guest1_def guest2_def)
  have o: "order_by_desc o_created_at (orders sample_store) = [order1]"
    by (simp add: order_by_desc_def sample_store_def)
  have n: "show_int 1 = ''1''" "show_int 2 = ''2''" by code_simp+
  show ?thesis
    using export_csv_layout [where e = quiet and st = sample_store] f
    by (simp add: g o n res_csv_def wrap_def guest1_def guest2_def order1_def sqlval_text_def)
qed

subsection \<open>Listing orders\<close>





subsection \<open>The store invariant\<close>

lemma js_members_map_of: "js_members kvs \<Longrightarrow> map_of kvs k = Some v \<Longrightarrow> js_value v"
  by (induction kvs) (auto split: if_splits)

lemma photos_present_stringify:
  "js_value p \<Longrightarrow> truthy_value p \<Longrightarrow> o_photos r = stringify p \<Longrightarrow> photos_present r"
  by (simp add: photos_present_def json_parse_stringify)

lemma post_api_guests_cases:
  "snd (post_api_guests cz e body st) = st \<or>
   (\<exists>i row. next_rowid (guests_seq st) (map g_id (guests st)) = Some i \<and> g_id row = i \<and>
      guests (snd (post_api_guests cz e body st)) = guests st @ [row] \<and>
      guests_seq (snd (post_api_guests cz e body st)) = i \<and>
      orders (snd (post_api_guests cz e body st)) = orders st \<and>
      orders_seq (snd (post_api_guests cz e body st)) = orders_seq st)"
  by (auto simp: post_api_guests_def insert_guest_def Let_def
      split: if_splits sum.splits option.splits prod.splits)

lemma post_api_orders_cases:
  "snd (post_api_orders cz e body st) = st \<or>
   (\<exists>i row p. next_rowid (orders_seq st) (map o_id (orders st)) = Some i \<and> o_id row = i \<and>
      map_of body ''photos'' = Some p \<and> truthy_value p \<and> o_photos row = stringify p \<and>
      orders (snd (post_api_orders cz e body st)) = orders st @ [row] \<and>
      orders_seq (snd (post_api_orders cz e body st)) = i \<and>
      guests (snd (post_api_orders cz e body st)) = guests st \<and>
      guests_seq (snd (post_api_orders cz e body st)) = guests_seq st)"
  by (auto simp: post_api_orders_def insert_order_def Let_def truthy_def
      split: if_splits sum.splits option.splits prod.splits)

lemma store_inv_empty: "store_inv empty_store"
  by (simp add: store_inv_def empty_store_def)

lemma handle_store_inv:
  assumes "store_inv st" "wf_request r"
  shows "store_inv (snd (handle cz e r st))"
proof (cases r)
  case (PostGuest body)
  from post_api_guests_cases [of cz e body st] show ?thesis
  proof (elim disjE exE conjE)
    assume "snd (post_api_guests cz e body st) = st"
    then show ?thesis using assms by (simp add: PostGuest split_beta)
  next
    fix i row
    assume n: "next_rowid (guests_seq st) (map g_id (guests st)) = Some i" "g_id row = i"
      and s: "guests (snd (post_api_guests cz e body st)) = guests st @ [row]"
        "guests_seq (snd (post_api_guests cz e body st)) = i"
        "orders (snd (post_api_guests cz e body st)) = orders st"
        "orders_seq (snd (post_api_guests cz e body st)) = orders_seq st"
    have "\<forall>x \<in> set (guests st). g_id x \<le> i"
      using next_rowid_Some(2) [OF n(1)] by fastforce
    then show ?thesis
      using assms(1) n(2) by (simp add: PostGuest split_beta s store_inv_def list_all_iff)
  qed
next
  case (PostOrder body)
  from post_api_orders_cases [of cz e body st] show ?thesis
  proof (elim disjE exE conjE)
    assume "snd (post_api_orders cz e body st) = st"
    then show ?thesis using assms by (simp add: PostOrder split_beta)
  next
    fix i row p
    assume n: "next_rowid (orders_seq st) (map o_id (orders st)) = Some i" "o_id row = i"
      and p: "map_of body ''photos'' = Some p" "truthy_value p" "o_photos row = stringify p"
      and s: "orders (snd (post_api_orders cz e body st)) = orders st @ [row]"
        "orders_seq (snd (post_api_orders cz e body st)) = i"
        "guests (snd (post_api_orders cz e body st)) = guests st"
        "guests_seq (snd (post_api_orders cz e body st)) = guests_seq st"
    have "js_value p"
      using assms(2) p(1) by (auto simp: PostOrder dest: js_members_map_of)
    then have pp: "photos_present row" using p by (intro photos_present_stringify)
    have "\<forall>x \<in> set (orders st). o_id x \<le> i"
      using next_rowid_Some(2) [OF n(1)] by fastforce
    then show ?thesis
      using assms(1) n(2) pp by (simp add: PostOrder split_beta s store_inv_def list_all_iff)
  qed
next
  case (DeleteGuest i)
  then show ?thesis
    using assms(1)
    by (auto simp: split_beta delete_api_guest_def delete_guest_where_id_def store_inv_def
        list_all_iff)
next
  case (DeleteOrder i)
  then show ?thesis
    using assms(1)
    by (auto simp: split_beta delete_api_order_def delete_order_where_id_def store_inv_def
        list_all_iff)
next
  case DeleteGuests
  then show ?thesis
    using assms(1)
    by (auto simp: split_beta delete_api_guests_def delete_from_guests_def store_inv_def)
next
  case DeleteOrders
  then show ?thesis
    using assms(1)
    by (auto simp: split_beta delete_api_orders_def delete_from_orders_def store_inv_def)
qed (use assms(1) in simp_all)

lemma run_store_inv:
  "store_inv st \<Longrightarrow> list_all (\<lambda>q. wf_request (snd q)) reqs \<Longrightarrow> store_inv (run cz st reqs)"
proof (induction reqs arbitrary: st)
  case Nil
  then show ?case by simp
next
  case (Cons q reqs)
  obtain e r where q: "q = (e, r)" by (cases q)
  from Cons.prems have "store_inv (snd (handle cz e r st))"
    by (intro handle_store_inv) (simp_all add: q)
  with Cons show ?case by (simp add: q)
qed

subsection \<open>Reading an order back\<close>








subsection \<open>Orders and their photos\<close>

text \<open>
  Claim C3, as stated, fails: one create request with \<^verbatim>\<open>photos: []\<close> on the empty store leaves
  an order whose photos list has length zero.
\<close>

theorem empty_photos_order_reachable:
  "map (\<lambda>r. (o_photo_count r, json_parse (o_photos r)))
     (orders (run plain_coercions empty_store [(quiet, PostOrder no_photos)]))
   = [(SInt 0, Some (JArr []))]"
  by code_simp

text \<open>
  Claim C3, amended. In every store reached from the empty store by requests, the stored
  photos text of every order parses back to a truthy value: the order was created with
  \<^verbatim>\<open>photos\<close> present and not \<^verbatim>\<open>null\<close>, \<^verbatim>\<open>false\<close>, \<^verbatim>\<open>0\<close> or the empty string. The empty list is
  such a value: a valid create request with \<^verbatim>\<open>photos: []\<close> is persisted, with \<^verbatim>\<open>photo_count\<close> 0.
\<close>

theorem orders_have_present_photos:
  "(list_all (\<lambda>q. wf_request (snd q)) reqs \<longrightarrow>
      list_all photos_present (orders (run cz empty_store reqs))) \<and>
   (store_inv st \<and> truthy (map_of body ''name'') \<and> truthy (map_of body ''email'') \<and>
    truthy (map_of body ''galleryName'') \<and> truthy (map_of body ''galleryId'') \<and>
    map_of body ''photos'' = Some (JArr []) \<and> \<not> fails e 0 \<and> orders_seq st < max_rowid \<longrightarrow>
      status (fst (post_api_orders cz e body st)) = 200 \<and>
      map (\<lambda>r. (o_photo_count r, o_photos r)) (orders (snd (post_api_orders cz e body st)))
        = map (\<lambda>r. (o_photo_count r, o_photos r)) (orders st) @ [(SInt 0, ''[]'')])"
proof (intro conjI impI; (elim conjE)?)
  assume "list_all (\<lambda>q. wf_request (snd q)) reqs"
  then have "store_inv (run cz empty_store reqs)"
    using store_inv_empty by (intro run_store_inv)
  then show "list_all photos_present (orders (run cz empty_store reqs))"
    by (simp add: store_inv_def list_all_iff)
next
  assume inv: "store_inv st"
    and t: "truthy (map_of body ''name'')" "truthy (map_of body ''email'')"
      "truthy (map_of body ''galleryName'')" "truthy (map_of body ''galleryId'')"
    and ph: "map_of body ''photos'' = Some (JArr [])"
    and f: "\<not> fails e 0" and sq: "orders_seq st < max_rowid"
  have nr: "next_rowid (orders_seq st) (map o_id (orders st)) = Some (orders_seq st + 1)"
    using inv sq by (intro next_rowid_inv) (auto simp: store_inv_def list_all_iff)
  have pc: "bind_integer cz (js_length (JArr [])) = Some (SInt 0)"
    by (simp add: bind_integer_def)
  from post_api_orders_inserts [OF t ph _ pc f nr]
  show "status (fst (post_api_orders cz e body st)) = 200"
    and "map (\<lambda>r. (o_photo_count r, o_photos r)) (orders (snd (post_api_orders cz e body st)))
        = map (\<lambda>r. (o_photo_count r, o_photos r)) (orders st) @ [(SInt 0, ''[]'')]"
    by (auto simp: res_json_def)
qed

text \<open>A run of four requests, and an order without photos added to a store holding one order.\<close>

theorem orders_have_present_photos_witness:
  "list_all (\<lambda>q. wf_request (snd q))
     [(quiet, PostOrder (ann @ [(''photos'', JArr sample_photos)])), (later, PostOrder no_photos),
      (later, PostOrder ann), (later, DeleteOrder ''1'')] \<and>
   list_all photos_present (orders (run plain_coercions empty_store
     [(quiet, PostOrder (ann @ [(''photos'', JArr sample_photos)])), (later, PostOrder no_photos),
      (later, PostOrder ann), (later, DeleteOrder ''1'')])) \<and>
   store_inv sample_store \<and> map_of no_photos ''photos'' = Some (JArr []) \<and> \<not> fails later 0 \<and>
   map (\<lambda>r. (o_photo_count r, o_photos r))
     (orders (snd (post_api_orders plain_coercions later no_photos sample_store)))
     = [(SInt 2, ''[\"p1\",\"p2\"]''), (SInt 0, ''[]'')]"
proof -
  have wf: "list_all (\<lambda>q. wf_request (snd q))
     [(quiet, PostOrder (ann @ [(''photos'', JArr sample_photos)])), (later, PostOrder no_photos),
      (later, PostOrder ann), (later, DeleteOrder ''1'')]"
    by code_simp
  have inv: "store_inv sample_store"
    by (simp add: store_inv_def sample_store_def guest1_def guest2_def order1_def photos_present_def)
       code_simp
  have h: "truthy (map_of no_photos ''name'')" "truthy (map_of no_photos ''email'')"
    "truthy (map_of no_photos ''galleryName'')" "truthy (map_of no_photos ''galleryId'')"
    "map_of no_photos ''photos'' = Some (JArr [])" "\<not> fails later 0"
    "orders_seq sample_store < max_rowid"
    by (simp_all add: no_photos_def ann_def truthy_def fails_def later_def sample_store_def
        max_rowid_def)
  have o: "map (\<lambda>r. (o_photo_count r, o_photos r)) (orders sample_store)
      = [(SInt 2, ''[\"p1\",\"p2\"]'')]"
    by (simp add: sample_store_def order1_def)
  show ?thesis
    using orders_have_present_photos [where cz = plain_coercions and e = later
        and st = sample_store and body = no_photos and reqs =
        "[(quiet, PostOrder (ann @ [(''photos'', JArr sample_photos)])), (later, PostOrder no_photos),
          (later, PostOrder ann), (later, DeleteOrder ''1'')]"]
      wf inv h
    by (simp add: o)
qed


end
